theory Spec2Isabelle
  imports Main "HOL-Library.Word"
begin

section \<open>The colored scheduler of GraphLab\<close>

text \<open>
  A shallow embedding of \<^verbatim>\<open>graphlab/schedulers/colored_scheduler.hpp\<close>.
  The class \<^verbatim>\<open>colored_scheduler<Graph>\<close> becomes a record of its data members, every
  member function a function from the record to the updated record. \<^verbatim>\<open>size_t\<close> is a
  64-bit word, so \<^verbatim>\<open>+=\<close> and \<^verbatim>\<open>inc()\<close> wrap around as they do in the program.
  Everything that is undefined behaviour or an abort in C++ (an index beyond a vector,
  a division by zero, a failed \<^verbatim>\<open>assert\<close>) is a value of type \<open>fault\<close>.
\<close>

subsection \<open>Types\<close>

type_synonym size_t = "64 word"

text \<open>
  \<^verbatim>\<open>vertex_id_t\<close> is declared outside the sources at hand; the constructor numbers the
  vertices \<open>0, 1, 2, ...\<close>, so a vertex identifier is a natural number here.
  \<^verbatim>\<open>update_function_type\<close> is a function pointer, \<^verbatim>\<open>set_option\<close> casts a
  \<^verbatim>\<open>void*\<close> to it and to \<^verbatim>\<open>size_t\<close>: a pointer is its address, \<^verbatim>\<open>NULL\<close> is 0.
\<close>

type_synonym vertex_id_t = nat
type_synonym update_function_type = size_t

datatype status_enum = NEWTASK | WAITING | COMPLETE

datatype fault = IndexOutOfRange | DivisionByZero | AssertionFailed

text \<open>
  Modelled from the spec: \<^verbatim>\<open>scheduler_options::options_enum\<close> is declared outside the
  sources at hand. The scheduler names two of its members; every other option name is
  \<open>OTHER_OPTION\<close>.
\<close>

datatype options_enum = UPDATE_FUNCTION | MAX_ITERATIONS | OTHER_OPTION nat

text \<open>
  Modelled from the spec: \<^verbatim>\<open>update_task\<close> is declared outside the sources at hand; a
  task is a vertex paired with the update function, built by
  \<^verbatim>\<open>update_task_type(vertex, update_function)\<close> and read by \<^verbatim>\<open>task.function()\<close>.
\<close>

record update_task =
  task_vertex :: vertex_id_t
  task_function :: update_function_type

text \<open>The graph, as far as the constructor reads it: \<^verbatim>\<open>num_vertices()\<close> and \<^verbatim>\<open>color(i)\<close>.\<close>

record graph =
  num_vertices :: nat
  vertex_color :: "nat \<Rightarrow> nat"

text \<open>
  The data members of the class. \<^verbatim>\<open>cpu_waiting\<close> is a vector of \<^verbatim>\<open>size_t\<close> that the
  code uses as a vector of flags (it stores \<^verbatim>\<open>true\<close> and \<^verbatim>\<open>false\<close>, that is 1 and 0, and
  tests for non-zero). \<^verbatim>\<open>color\<close> and \<^verbatim>\<open>waiting\<close> are \<^verbatim>\<open>atomic<size_t>\<close>; the field is its
  \<^verbatim>\<open>value\<close>. The reference to the graph and the inert callback carry no state.
\<close>

record colored_scheduler =
  color_blocks :: "vertex_id_t list list"
  cpu_index :: "size_t list"
  cpu_color :: "size_t list"
  cpu_waiting :: "size_t list"
  max_iterations :: size_t
  update_function :: update_function_type
  completed :: bool
  color :: size_t
  waiting :: size_t

text \<open>\<^verbatim>\<open>v.size()\<close> of a \<^verbatim>\<open>std::vector\<close>, a \<^verbatim>\<open>size_t\<close>.\<close>

definition vec_size :: "'a list \<Rightarrow> size_t" where
  "vec_size xs = of_nat (length xs)"

text \<open>
  Modelled from the spec: \<^verbatim>\<open>atomic<size_t>::inc()\<close> lives in
  \<^verbatim>\<open>graphlab/parallel/atomic.hpp\<close>, outside the sources at hand. It adds one to the
  stored value and returns the value after the increment (``the post-increment
  WaitCount''). The result is the pair (stored value, returned value).
\<close>

definition atomic_inc :: "size_t \<Rightarrow> size_t \<times> size_t" where
  "atomic_inc v = (v + 1, v + 1)"

subsection \<open>The constructor\<close>

text \<open>
  One round of the constructor's loop: \<^verbatim>\<open>if(color >= color_blocks.size())
  color_blocks.resize(color + 1); color_blocks[color].push_back(i);\<close>
\<close>

definition push_vertex :: "nat \<Rightarrow> vertex_id_t \<Rightarrow> vertex_id_t list list \<Rightarrow> vertex_id_t list list" where
  "push_vertex c i blocks =
    (let resized = (if length blocks \<le> c then blocks @ replicate (c + 1 - length blocks) [] else blocks)
     in resized[c := resized ! c @ [i]])"

text \<open>The loop \<^verbatim>\<open>for(size_t i = 0; i < graph.num_vertices(); ++i)\<close>, after \<open>n\<close> rounds.\<close>

primrec build_blocks :: "(nat \<Rightarrow> nat) \<Rightarrow> nat \<Rightarrow> vertex_id_t list list" where
  "build_blocks color_of 0 = []"
| "build_blocks color_of (Suc n) = push_vertex (color_of n) n (build_blocks color_of n)"

text \<open>
  The constructor. It does not initialise \<^verbatim>\<open>completed\<close>, and \<^verbatim>\<open>waiting\<close> is left to the
  constructor of \<^verbatim>\<open>atomic\<close>: both are parameters here (\<^verbatim>\<open>start\<close> sets them).
\<close>

definition new_colored_scheduler :: "graph \<Rightarrow> nat \<Rightarrow> bool \<Rightarrow> size_t \<Rightarrow> colored_scheduler" where
  "new_colored_scheduler g ncpus completed0 waiting0 =
    \<lparr> color_blocks = build_blocks (vertex_color g) (num_vertices g),
      cpu_index = replicate ncpus 0,
      cpu_color = replicate ncpus 0,
      cpu_waiting = replicate ncpus 0,
      max_iterations = - 1,
      update_function = 0,
      completed = completed0,
      color = 0,
      waiting = waiting0 \<rparr>"

subsection \<open>start, stop, abort\<close>

text \<open>The body of the loop of \<^verbatim>\<open>start\<close> for one \<open>i\<close>.\<close>

definition start_cpu :: "nat \<Rightarrow> colored_scheduler \<Rightarrow> colored_scheduler" where
  "start_cpu i s =
    s\<lparr> cpu_index := (cpu_index s)[i := of_nat i],
       cpu_color := (cpu_color s)[i := color s],
       cpu_waiting := (cpu_waiting s)[i := 0] \<rparr>"

text \<open>The loop \<^verbatim>\<open>for(size_t i = 0; i < cpu_index.size(); ++i)\<close>, after \<open>n\<close> rounds.\<close>

primrec start_loop :: "nat \<Rightarrow> colored_scheduler \<Rightarrow> colored_scheduler" where
  "start_loop 0 s = s"
| "start_loop (Suc n) s = start_cpu n (start_loop n s)"

text \<open>
  \<^verbatim>\<open>start\<close>: the assertion on the update function, the loop, the two resets. The three
  per-cpu vectors are created with the same size and never resized; were
  \<^verbatim>\<open>cpu_color\<close> or \<^verbatim>\<open>cpu_waiting\<close> shorter than \<^verbatim>\<open>cpu_index\<close>, the loop would write beyond them.
\<close>

definition start :: "colored_scheduler \<Rightarrow> fault + colored_scheduler" where
  "start s =
    (if update_function s = 0 then Inl AssertionFailed
     else if \<not> (length (cpu_index s) \<le> length (cpu_color s) \<and>
                length (cpu_index s) \<le> length (cpu_waiting s)) then Inl IndexOutOfRange
     else Inr ((start_loop (length (cpu_index s)) s)\<lparr> waiting := 0, completed := False \<rparr>))"

definition stop :: "colored_scheduler \<Rightarrow> colored_scheduler" where
  "stop s = s\<lparr> completed := True \<rparr>"

definition abort :: "colored_scheduler \<Rightarrow> colored_scheduler" where
  "abort s = s\<lparr> completed := True \<rparr>"

subsection \<open>Registration\<close>

text \<open>The priority is a \<^verbatim>\<open>double\<close> that no code path reads; its type is left open.\<close>

definition add_task :: "update_task \<Rightarrow> 'p \<Rightarrow> colored_scheduler \<Rightarrow> colored_scheduler" where
  "add_task task priority s = s\<lparr> update_function := task_function task \<rparr>"

definition add_tasks ::
  "vertex_id_t list \<Rightarrow> update_function_type \<Rightarrow> 'p \<Rightarrow> colored_scheduler \<Rightarrow> colored_scheduler" where
  "add_tasks vertices func priority s = s\<lparr> update_function := func \<rparr>"

definition add_task_to_all :: "update_function_type \<Rightarrow> 'p \<Rightarrow> colored_scheduler \<Rightarrow> colored_scheduler" where
  "add_task_to_all func priority s = s\<lparr> update_function := func \<rparr>"

definition completed_task :: "size_t \<Rightarrow> update_task \<Rightarrow> colored_scheduler \<Rightarrow> colored_scheduler" where
  "completed_task cpuid task s = s"

subsection \<open>set_option\<close>

text \<open>
  \<^verbatim>\<open>set_option\<close> of the class (\<open>set_option\<close> alone is a constant of HOL already).
  Two statements in sequence: an \<^verbatim>\<open>if\<close> without \<^verbatim>\<open>else\<close> on \<^verbatim>\<open>UPDATE_FUNCTION\<close>, then
  \<^verbatim>\<open>if (opt == MAX_ITERATIONS) ... else assert(false)\<close>.
\<close>

definition set_option_scheduler :: "options_enum \<Rightarrow> size_t \<Rightarrow> colored_scheduler \<Rightarrow> fault + colored_scheduler" where
  "set_option_scheduler opt val s =
    (let s1 = (if opt = UPDATE_FUNCTION then s\<lparr> update_function := val \<rparr> else s)
     in if opt = MAX_ITERATIONS then Inr (s1\<lparr> max_iterations := val \<rparr>)
        else Inl AssertionFailed)"

subsection \<open>get_next_task\<close>

text \<open>
  \<^verbatim>\<open>cpuid\<close> indexes the three per-cpu vectors; they have the same size by construction,
  and an index beyond them is out of range.
\<close>

definition cpu_in_range :: "colored_scheduler \<Rightarrow> size_t \<Rightarrow> bool" where
  "cpu_in_range s cpuid =
    (unat cpuid < length (cpu_index s) \<and> unat cpuid < length (cpu_color s) \<and>
     unat cpuid < length (cpu_waiting s))"

text \<open>
  Lines 130 to 141 past the early return: a worker that was waiting and sees a new
  epoch takes it over, restarts its cursor at \<^verbatim>\<open>cpuid\<close> and leaves the waiting state; a
  worker that was not waiting moves its cursor on by \<^verbatim>\<open>cpu_index.size()\<close>.
\<close>

definition renew_cursor :: "size_t \<Rightarrow> colored_scheduler \<Rightarrow> colored_scheduler" where
  "renew_cursor cpuid s =
    (if cpu_waiting s ! unat cpuid \<noteq> 0
     then s\<lparr> cpu_color := (cpu_color s)[unat cpuid := color s],
             cpu_index := (cpu_index s)[unat cpuid := cpuid],
             cpu_waiting := (cpu_waiting s)[unat cpuid := 0] \<rparr>
     else s\<lparr> cpu_index := (cpu_index s)
                [unat cpuid := cpu_index s ! unat cpuid + vec_size (cpu_index s)] \<rparr>)"

text \<open>
  Lines 159 to 167: the worker overran its block. It increments the waiting counter,
  sets its flag, and if the counter has reached the number of cpus it resets the counter
  and increments the epoch.
\<close>

definition enter_waiting :: "size_t \<Rightarrow> colored_scheduler \<Rightarrow> colored_scheduler" where
  "enter_waiting cpuid s =
    (let (stored, current_waiting) = atomic_inc (waiting s);
         s2 = s\<lparr> waiting := stored, cpu_waiting := (cpu_waiting s)[unat cpuid := 1] \<rparr>
     in if current_waiting = vec_size (cpu_index s2)
        then s2\<lparr> waiting := 0, color := fst (atomic_inc (color s2)) \<rparr>
        else s2)"

text \<open>
  \<^verbatim>\<open>get_next_task\<close>. The result is the returned status, the contents of the reference
  parameter \<^verbatim>\<open>ret_task\<close> after the call, and the scheduler after the call. The two reads
  \<^verbatim>\<open>color_blocks[current_color]\<close> and \<^verbatim>\<open>color_blocks[current_color][cpu_index[cpuid]]\<close> are
  within range whenever they are reached (lemma \<open>color_block_reads_in_range\<close>).
\<close>

definition get_next_task ::
  "size_t \<Rightarrow> update_task \<Rightarrow> colored_scheduler \<Rightarrow> fault + (status_enum \<times> update_task \<times> colored_scheduler)" where
  "get_next_task cpuid ret_task s =
    (if completed s then Inr (COMPLETE, ret_task, s)
     else if \<not> cpu_in_range s cpuid then Inl IndexOutOfRange
     else if cpu_waiting s ! unat cpuid \<noteq> 0 \<and> cpu_color s ! unat cpuid = color s
       then Inr (WAITING, ret_task, s)
     else
       let s1 = renew_cursor cpuid s
       in if vec_size (color_blocks s1) = 0 then Inl DivisionByZero
          else
            let current_color = cpu_color s1 ! unat cpuid mod vec_size (color_blocks s1)
            in if max_iterations s1 \<le> cpu_color s1 ! unat cpuid div vec_size (color_blocks s1)
                 then Inr (COMPLETE, ret_task, s1)
               else if cpu_index s1 ! unat cpuid < vec_size (color_blocks s1 ! unat current_color)
                 then Inr (NEWTASK,
                           \<lparr> task_vertex = color_blocks s1 ! unat current_color
                                             ! unat (cpu_index s1 ! unat cpuid),
                             task_function = update_function s1 \<rparr>,
                           s1)
               else Inr (WAITING, ret_task, enter_waiting cpuid s1))"

subsection \<open>Driving the workers\<close>

text \<open>
  A single-threaded run: the workers named in the list call \<^verbatim>\<open>get_next_task\<close> one after
  the other, each with a task variable holding \<open>t0\<close>. The run collects what every call
  returned and stops at the first fault.
\<close>

fun run_workers ::
  "size_t list \<Rightarrow> update_task \<Rightarrow> colored_scheduler \<Rightarrow> fault + ((status_enum \<times> update_task) list \<times> colored_scheduler)" where
  "run_workers [] t0 s = Inr ([], s)"
| "run_workers (cpuid # rest) t0 s =
    (case get_next_task cpuid t0 s of
       Inl e \<Rightarrow> Inl e
     | Inr (st, t, s') \<Rightarrow>
         (case run_workers rest t0 s' of
            Inl e \<Rightarrow> Inl e
          | Inr (out, s'') \<Rightarrow> Inr ((st, t) # out, s'')))"

subsection \<open>Runs of the engine\<close>

text \<open>
  What the engine does with a scheduler: it constructs it over a graph, registers the
  update function, sets the iteration limit, starts it, and lets the workers ask for
  tasks. The result is what the calls of \<^verbatim>\<open>get_next_task\<close> returned.
\<close>

definition engine_run ::
  "graph \<Rightarrow> nat \<Rightarrow> update_function_type \<Rightarrow> size_t \<Rightarrow> size_t list \<Rightarrow> update_task
     \<Rightarrow> fault + (status_enum \<times> update_task) list" where
  "engine_run g ncpus func iters cpuids t0 =
    (case set_option_scheduler MAX_ITERATIONS iters
            (add_task_to_all func () (new_colored_scheduler g ncpus False 0)) of
       Inl e \<Rightarrow> Inl e
     | Inr s \<Rightarrow>
         (case start s of
            Inl e \<Rightarrow> Inl e
          | Inr s0 \<Rightarrow>
              (case run_workers cpuids t0 s0 of
                 Inl e \<Rightarrow> Inl e
               | Inr (out, s1) \<Rightarrow> Inr out)))"

text \<open>
  The scenario of the specification: four vertices, 0 and 1 of the first color, 2 and 3
  of the second.
\<close>

definition scenario_graph :: graph where
  "scenario_graph = \<lparr> num_vertices = 4, vertex_color = (\<lambda>i. if i < 2 then 0 else 1) \<rparr>"

definition no_task :: update_task where
  "no_task = \<lparr> task_vertex = 0, task_function = 0 \<rparr>"

text \<open>
  The scheduler of the scenario with two workers, update function 7 and one iteration,
  as \<^verbatim>\<open>start\<close> leaves it, and the same scheduler after the workers in the list have
  called \<^verbatim>\<open>get_next_task\<close>.
\<close>

definition scenario_configured :: colored_scheduler where
  "scenario_configured =
    (add_task_to_all 7 () (new_colored_scheduler scenario_graph 2 False 0))\<lparr> max_iterations := 1 \<rparr>"

definition scenario_started :: colored_scheduler where
  "scenario_started =
    \<lparr> color_blocks = [[0, 1], [2, 3]],
      cpu_index = [0, 1],
      cpu_color = [0, 0],
      cpu_waiting = [0, 0],
      max_iterations = 1,
      update_function = 7,
      completed = False,
      color = 0,
      waiting = 0 \<rparr>"

definition scenario_after :: "size_t list \<Rightarrow> colored_scheduler" where
  "scenario_after cpuids =
    (case run_workers cpuids no_task scenario_started of
       Inl e \<Rightarrow> scenario_started
     | Inr (out, s) \<Rightarrow> s)"

text \<open>
  A second scenario: six vertices of one color, two workers, update function 7 and one
  iteration; the scheduler as \<^verbatim>\<open>start\<close> leaves it, and after the workers in the list have
  called \<^verbatim>\<open>get_next_task\<close>.
\<close>

definition six_graph :: graph where
  "six_graph = \<lparr> num_vertices = 6, vertex_color = (\<lambda>i. 0) \<rparr>"

definition six_configured :: colored_scheduler where
  "six_configured =
    (add_task_to_all 7 () (new_colored_scheduler six_graph 2 False 0))\<lparr> max_iterations := 1 \<rparr>"

definition six_started :: colored_scheduler where
  "six_started =
    \<lparr> color_blocks = [[0, 1, 2, 3, 4, 5]],
      cpu_index = [0, 1],
      cpu_color = [0, 0],
      cpu_waiting = [0, 0],
      max_iterations = 1,
      update_function = 7,
      completed = False,
      color = 0,
      waiting = 0 \<rparr>"

definition six_after :: "size_t list \<Rightarrow> colored_scheduler" where
  "six_after cpuids =
    (case run_workers cpuids no_task six_started of
       Inl e \<Rightarrow> six_started
     | Inr (out, s) \<Rightarrow> s)"

text \<open>
  A scheduler with three workers, one block and no iterations left, as \<^verbatim>\<open>start\<close> leaves it
  when \<open>idx\<close> is 0; \<open>idx\<close> is the cursor of worker 0.
\<close>

definition three_spent :: "size_t \<Rightarrow> colored_scheduler" where
  "three_spent idx =
    \<lparr> color_blocks = [[0]],
      cpu_index = [idx, 1, 2],
      cpu_color = [0, 0, 0],
      cpu_waiting = [0, 0, 0],
      max_iterations = 0,
      update_function = 7,
      completed = False,
      color = 0,
      waiting = 0 \<rparr>"

text \<open>
  The calls other than \<^verbatim>\<open>get_next_task\<close> that the engine and the update functions
  make while a run is under way. \<^verbatim>\<open>start\<close> begins a new run and \<^verbatim>\<open>set_option\<close> configures
  the scheduler before the run; they are not among them. The priority is not read by any
  of the calls; \<open>()\<close> stands for it.
\<close>

datatype engine_call =
    ADD_TASK update_task
  | ADD_TASKS "vertex_id_t list" update_function_type
  | ADD_TASK_TO_ALL update_function_type
  | COMPLETED_TASK size_t update_task
  | STOP
  | ABORT

fun perform :: "engine_call \<Rightarrow> colored_scheduler \<Rightarrow> colored_scheduler" where
  "perform (ADD_TASK task) s = add_task task () s"
| "perform (ADD_TASKS vertices func) s = add_tasks vertices func () s"
| "perform (ADD_TASK_TO_ALL func) s = add_task_to_all func () s"
| "perform (COMPLETED_TASK cpuid task) s = completed_task cpuid task s"
| "perform STOP s = stop s"
| "perform ABORT s = abort s"

text \<open>
  \<open>later s s'\<close>: the scheduler gets from \<open>s\<close> to \<open>s'\<close> by calls of \<^verbatim>\<open>get_next_task\<close>
  that return and by the calls above, in any order.
\<close>

inductive later :: "colored_scheduler \<Rightarrow> colored_scheduler \<Rightarrow> bool" where
  now: "later s s"
| stepped: "later s s1 \<Longrightarrow> get_next_task cpuid t s1 = Inr (st, t', s2) \<Longrightarrow> later s s2"
| called: "later s s1 \<Longrightarrow> later s (perform c s1)"

text \<open>The states of a run: those that come later than a state that \<^verbatim>\<open>start\<close> returned.\<close>

inductive reachable :: "colored_scheduler \<Rightarrow> bool" where
  run: "start s = Inr s0 \<Longrightarrow> later s0 s' \<Longrightarrow> reachable s'"

text \<open>
  The test of line 146, for worker \<open>w\<close>: its observed epoch has not used up the
  iterations. A worker beyond it is sent to \<open>COMPLETE\<close> and scans no block any more.
\<close>

definition within_budget :: "colored_scheduler \<Rightarrow> nat \<Rightarrow> bool" where
  "within_budget s w =
    (\<not> max_iterations s \<le> cpu_color s ! w div vec_size (color_blocks s))"

text \<open>
  The test of lines 130 and 132: the worker is waiting and the epoch has not moved.
\<close>

definition still_waiting :: "colored_scheduler \<Rightarrow> size_t \<Rightarrow> bool" where
  "still_waiting s cpuid =
    (cpu_waiting s ! unat cpuid \<noteq> 0 \<and> cpu_color s ! unat cpuid = color s)"

text \<open>
  A \<^verbatim>\<open>std::vector\<close> holds fewer than \<open>2^63\<close> elements (its \<^verbatim>\<open>max_size()\<close> is below that
  on a 64-bit machine), so the sizes of the vectors are exact as \<^verbatim>\<open>size_t\<close>.
\<close>

definition representable :: "colored_scheduler \<Rightarrow> bool" where
  "representable s =
    (length (cpu_index s) < 2 ^ 63 \<and> list_all (\<lambda>b. length b < 2 ^ 63) (color_blocks s))"

text \<open>
  What the scan keeps true of the cursor of worker \<open>w\<close>: the cursor of a waiting
  worker is congruent to \<open>w\<close> modulo the number of cpus; a worker that is not waiting
  and within the budget has its cursor at \<open>w\<close> or at a position of its block congruent
  to \<open>w\<close>.
\<close>

definition cursor_ok :: "colored_scheduler \<Rightarrow> nat \<Rightarrow> bool" where
  "cursor_ok s w =
    (let n = length (cpu_index s);
         idx = cpu_index s ! w;
         block = color_blocks s ! unat (cpu_color s ! w mod vec_size (color_blocks s))
     in if cpu_waiting s ! w \<noteq> 0 then unat idx mod n = w
        else \<not> within_budget s w \<or> idx = of_nat w \<or> (unat idx mod n = w \<and> unat idx < length block))"

text \<open>
  The workers that wait in the current epoch, and what the two counters keep true of
  them: \<^verbatim>\<open>waiting\<close> is their number, and every worker has observed the current epoch
  or waits with the one before.
\<close>

definition parked :: "colored_scheduler \<Rightarrow> nat set" where
  "parked s = {w. w < length (cpu_index s) \<and> cpu_waiting s ! w \<noteq> 0 \<and> cpu_color s ! w = color s}"

definition barrier_ok :: "colored_scheduler \<Rightarrow> bool" where
  "barrier_ok s =
    (unat (waiting s) = card (parked s) \<and>
     (\<forall>w<length (cpu_index s).
        cpu_color s ! w = color s \<or> (cpu_waiting s ! w \<noteq> 0 \<and> cpu_color s ! w + 1 = color s)))"

section \<open>What a call of get_next_task changes\<close>

lemma renew_cursor_shared [simp]:
  "color (renew_cursor cpuid s) = color s"
  "waiting (renew_cursor cpuid s) = waiting s"
  "completed (renew_cursor cpuid s) = completed s"
  "max_iterations (renew_cursor cpuid s) = max_iterations s"
  "update_function (renew_cursor cpuid s) = update_function s"
  "color_blocks (renew_cursor cpuid s) = color_blocks s"
  "length (cpu_index (renew_cursor cpuid s)) = length (cpu_index s)"
  "length (cpu_color (renew_cursor cpuid s)) = length (cpu_color s)"
  "length (cpu_waiting (renew_cursor cpuid s)) = length (cpu_waiting s)"
  "vec_size (cpu_index (renew_cursor cpuid s)) = vec_size (cpu_index s)"
  by (simp_all add: renew_cursor_def vec_size_def)

lemma enter_waiting_shared [simp]:
  "completed (enter_waiting cpuid s) = completed s"
  "max_iterations (enter_waiting cpuid s) = max_iterations s"
  "update_function (enter_waiting cpuid s) = update_function s"
  "color_blocks (enter_waiting cpuid s) = color_blocks s"
  "cpu_index (enter_waiting cpuid s) = cpu_index s"
  "cpu_color (enter_waiting cpuid s) = cpu_color s"
  "cpu_waiting (enter_waiting cpuid s) = (cpu_waiting s)[unat cpuid := 1]"
  by (simp_all add: enter_waiting_def atomic_inc_def Let_def)

lemma renew_cursor_other:
  "w \<noteq> unat cpuid \<Longrightarrow> cpu_index (renew_cursor cpuid s) ! w = cpu_index s ! w"
  "w \<noteq> unat cpuid \<Longrightarrow> cpu_color (renew_cursor cpuid s) ! w = cpu_color s ! w"
  "w \<noteq> unat cpuid \<Longrightarrow> cpu_waiting (renew_cursor cpuid s) ! w = cpu_waiting s ! w"
  by (simp_all add: renew_cursor_def)

lemma enter_waiting_color:
  "color (enter_waiting cpuid s) =
     (if waiting s + 1 = vec_size (cpu_index s) then color s + 1 else color s)"
  by (simp add: enter_waiting_def atomic_inc_def)

lemma enter_waiting_waiting:
  "waiting (enter_waiting cpuid s) =
     (if waiting s + 1 = vec_size (cpu_index s) then 0 else waiting s + 1)"
  by (simp add: enter_waiting_def atomic_inc_def)

text \<open>What a call leaves alone.\<close>

lemma get_next_task_frame:
  assumes "get_next_task cpuid t s = Inr (st, t', s')"
  shows "color_blocks s' = color_blocks s"
    and "max_iterations s' = max_iterations s"
    and "update_function s' = update_function s"
    and "completed s' = completed s"
    and "length (cpu_index s') = length (cpu_index s)"
    and "length (cpu_color s') = length (cpu_color s)"
    and "length (cpu_waiting s') = length (cpu_waiting s)"
  using assms
  by (auto simp: get_next_task_def Let_def split: if_splits)

lemma get_next_task_other:
  assumes "get_next_task cpuid t s = Inr (st, t', s')" and "w \<noteq> unat cpuid"
  shows "cpu_index s' ! w = cpu_index s ! w"
    and "cpu_color s' ! w = cpu_color s ! w"
    and "cpu_waiting s' ! w = cpu_waiting s ! w"
  using assms
  by (auto simp: get_next_task_def Let_def renew_cursor_other split: if_splits)

text \<open>The outcomes of a call, one by one.\<close>

lemma get_next_task_cases [consumes 1, case_names Done Still Budget Task Park]:
  assumes "get_next_task cpuid t s = Inr (st, t', s')"
  obtains
    (Done) "completed s" "st = COMPLETE" "t' = t" "s' = s"
  | (Still) "\<not> completed s" "cpu_in_range s cpuid" "still_waiting s cpuid"
      "st = WAITING" "t' = t" "s' = s"
  | (Budget) "\<not> completed s" "cpu_in_range s cpuid" "\<not> still_waiting s cpuid"
      "vec_size (color_blocks s) \<noteq> 0"
      "\<not> within_budget (renew_cursor cpuid s) (unat cpuid)"
      "st = COMPLETE" "t' = t" "s' = renew_cursor cpuid s"
  | (Task) "\<not> completed s" "cpu_in_range s cpuid" "\<not> still_waiting s cpuid"
      "vec_size (color_blocks s) \<noteq> 0"
      "within_budget (renew_cursor cpuid s) (unat cpuid)"
      "cpu_index (renew_cursor cpuid s) ! unat cpuid
         < vec_size (color_blocks s ! unat (cpu_color (renew_cursor cpuid s) ! unat cpuid
                                              mod vec_size (color_blocks s)))"
      "st = NEWTASK" "s' = renew_cursor cpuid s"
      "t' = \<lparr> task_vertex = color_blocks s ! unat (cpu_color s' ! unat cpuid mod vec_size (color_blocks s))
                                ! unat (cpu_index s' ! unat cpuid),
              task_function = update_function s \<rparr>"
  | (Park) "\<not> completed s" "cpu_in_range s cpuid" "\<not> still_waiting s cpuid"
      "vec_size (color_blocks s) \<noteq> 0"
      "within_budget (renew_cursor cpuid s) (unat cpuid)"
      "\<not> cpu_index (renew_cursor cpuid s) ! unat cpuid
         < vec_size (color_blocks s ! unat (cpu_color (renew_cursor cpuid s) ! unat cpuid
                                              mod vec_size (color_blocks s)))"
      "st = WAITING" "t' = t" "s' = enter_waiting cpuid (renew_cursor cpuid s)"
  using assms
  by (auto simp: get_next_task_def Let_def still_waiting_def within_budget_def split: if_splits)

lemma get_next_task_completed:
  "completed s \<Longrightarrow> get_next_task cpuid t s = Inr (COMPLETE, t, s)"
  by (simp add: get_next_task_def)

subsection \<open>Sizes as words\<close>

lemma unat_vec_size_le: "unat (vec_size xs) \<le> length xs"
  by (simp add: vec_size_def unat_of_nat)

lemma less_vec_size_in_range: "i < vec_size xs \<Longrightarrow> unat i < length xs"
  using unat_vec_size_le [of xs] by (simp add: word_less_nat_alt)

lemma mod_vec_size_in_range: "vec_size xs \<noteq> 0 \<Longrightarrow> unat (x mod vec_size xs) < length xs"
proof -
  assume nz: "vec_size xs \<noteq> 0"
  then have "0 < unat (vec_size xs)" by (simp add: unat_gt_0)
  then have "unat x mod unat (vec_size xs) < unat (vec_size xs)" by simp
  then have "unat (x mod vec_size xs) < unat (vec_size xs)" by (simp add: unat_mod)
  with unat_vec_size_le [of xs] show ?thesis by simp
qed

lemma unat_of_nat_small: "n < 2 ^ 63 \<Longrightarrow> unat (of_nat n :: size_t) = n"
proof -
  assume "n < 2 ^ 63"
  then have "n < 2 ^ 64" by simp
  then show ?thesis by (simp add: unat_of_nat)
qed

lemma unat_vec_size: "length xs < 2 ^ 63 \<Longrightarrow> unat (vec_size xs) = length xs"
  by (simp add: vec_size_def unat_of_nat_small)

lemma unat_add_vec_size:
  assumes "unat i < 2 ^ 63" and "length xs < 2 ^ 63"
  shows "unat (i + vec_size xs) = unat i + length xs"
proof -
  have "unat i + unat (vec_size xs) < 2 ^ LENGTH(64)"
    using assms by (simp add: unat_vec_size)
  then have "unat (i + vec_size xs) = unat i + unat (vec_size xs)"
    by (simp only: unat_add_lem)
  with assms(2) show ?thesis by (simp add: unat_vec_size)
qed

lemma unat_of_nat_cpu: "w < n \<Longrightarrow> n < 2 ^ 63 \<Longrightarrow> unat (of_nat w :: size_t) = w"
  by (rule unat_of_nat_small) simp

text \<open>The two reads of \<open>color_blocks\<close> in \<open>get_next_task\<close> are within range.\<close>

lemma color_block_reads_in_range:
  assumes "get_next_task cpuid t s = Inr (NEWTASK, t', s')"
  shows "unat (cpu_color s' ! unat cpuid mod vec_size (color_blocks s)) < length (color_blocks s)"
    and "unat (cpu_index s' ! unat cpuid)
           < length (color_blocks s ! unat (cpu_color s' ! unat cpuid mod vec_size (color_blocks s)))"
  using assms
  by (cases rule: get_next_task_cases; simp add: mod_vec_size_in_range less_vec_size_in_range)+

lemma representable_step:
  "get_next_task cpuid t s = Inr (st, t', s') \<Longrightarrow> representable s' = representable s"
  using get_next_task_frame(1,5) [of cpuid t s st t' s'] by (simp add: representable_def)

subsection \<open>The state after start\<close>

lemma start_loop_shared [simp]:
  "color (start_loop n s) = color s"
  "color_blocks (start_loop n s) = color_blocks s"
  "max_iterations (start_loop n s) = max_iterations s"
  "length (cpu_index (start_loop n s)) = length (cpu_index s)"
  "length (cpu_color (start_loop n s)) = length (cpu_color s)"
  "length (cpu_waiting (start_loop n s)) = length (cpu_waiting s)"
  by (induction n) (simp_all add: start_cpu_def)

lemma start_loop_index:
  "i < n \<Longrightarrow> i < length (cpu_index s) \<Longrightarrow> cpu_index (start_loop n s) ! i = of_nat i"
  by (induction n) (auto simp: start_cpu_def nth_list_update less_Suc_eq)

lemma start_loop_waiting:
  "i < n \<Longrightarrow> i < length (cpu_waiting s) \<Longrightarrow> cpu_waiting (start_loop n s) ! i = 0"
  by (induction n) (auto simp: start_cpu_def nth_list_update less_Suc_eq)

lemma start_loop_color:
  "i < n \<Longrightarrow> i < length (cpu_color s) \<Longrightarrow> cpu_color (start_loop n s) ! i = color s"
  by (induction n) (auto simp: start_cpu_def nth_list_update less_Suc_eq)

lemma start_state:
  assumes "start s = Inr s0" and "w < length (cpu_index s0)"
  shows "cpu_index s0 ! w = of_nat w" and "cpu_waiting s0 ! w = 0" and "cpu_color s0 ! w = color s0"
    and "waiting s0 = 0" and "\<not> completed s0"
  using assms
  by (auto simp: start_def start_loop_index start_loop_waiting start_loop_color split: if_splits)

subsection \<open>The other calls\<close>

lemma perform_shared [simp]:
  "color_blocks (perform c s) = color_blocks s"
  "cpu_index (perform c s) = cpu_index s"
  "cpu_color (perform c s) = cpu_color s"
  "cpu_waiting (perform c s) = cpu_waiting s"
  "max_iterations (perform c s) = max_iterations s"
  "color (perform c s) = color s"
  "waiting (perform c s) = waiting s"
  by (cases c; simp add: add_task_def add_tasks_def add_task_to_all_def completed_task_def
        stop_def abort_def)+

lemma perform_completed: "completed s \<Longrightarrow> completed (perform c s)"
  by (cases c) (simp_all add: add_task_def add_tasks_def add_task_to_all_def completed_task_def
        stop_def abort_def)

subsection \<open>The states of a run\<close>

lemma reachable_started: "start s = Inr s0 \<Longrightarrow> reachable s0"
  by (rule reachable.run [OF _ later.now])

lemma reachable_stepped:
  "reachable s \<Longrightarrow> get_next_task cpuid t s = Inr (st, t', s') \<Longrightarrow> reachable s'"
  by (auto elim!: reachable.cases intro: reachable.run later.stepped)

lemma reachable_called: "reachable s \<Longrightarrow> reachable (perform c s)"
  by (auto elim!: reachable.cases intro: reachable.run later.called)

lemma reachable_later: "later s s' \<Longrightarrow> reachable s \<Longrightarrow> reachable s'"
  by (induction rule: later.induct) (auto intro: reachable_stepped reachable_called)

text \<open>Induction over the states of a run.\<close>

lemma reachable_induct [consumes 1, case_names started stepped called]:
  assumes "reachable x"
    and started: "\<And>s s0. start s = Inr s0 \<Longrightarrow> P s0"
    and stepped: "\<And>s cpuid t st t' s'.
           reachable s \<Longrightarrow> P s \<Longrightarrow> get_next_task cpuid t s = Inr (st, t', s') \<Longrightarrow> P s'"
    and called: "\<And>s c. reachable s \<Longrightarrow> P s \<Longrightarrow> P (perform c s)"
  shows "P x"
proof -
  from assms(1) obtain s s0 where s0: "start s = Inr s0" and l: "later s0 x"
    by (auto elim: reachable.cases)
  from l s0 have "reachable x \<and> P x"
  proof (induction rule: later.induct)
    case (now s0)
    then show ?case by (simp add: reachable_started started)
  next
    case (stepped s0 s1 cpuid t st t' s2)
    then show ?case using reachable_stepped assms(3) by blast
  next
    case (called s0 s1 c)
    then show ?case using reachable_called assms(4) by blast
  qed
  then show ?thesis ..
qed

lemma later_completed: "later s s' \<Longrightarrow> completed s \<Longrightarrow> completed s'"
proof (induction rule: later.induct)
  case (now s)
  then show ?case by simp
next
  case (stepped s s1 cpuid t st t' s2)
  from stepped.IH stepped.prems have "completed s1" .
  with get_next_task_frame(4) [OF stepped.hyps(2)] show ?case by simp
next
  case (called s s1 c)
  from called.IH called.prems have "completed s1" .
  then show ?case by (rule perform_completed)
qed

subsection \<open>Runs stay among the reachable states\<close>

lemma run_workers_reachable:
  "reachable s \<Longrightarrow> run_workers cpuids t0 s = Inr (out, s') \<Longrightarrow> reachable s'"
proof (induction cpuids arbitrary: s out)
  case Nil
  then show ?case by simp
next
  case (Cons cpuid rest)
  from Cons.prems(2) obtain st t s1 out1
    where step: "get_next_task cpuid t0 s = Inr (st, t, s1)"
      and rest: "run_workers rest t0 s1 = Inr (out1, s')"
    by (auto split: sum.splits prod.splits)
  from Cons.prems(1) step have "reachable s1" by (rule reachable_stepped)
  from this rest show ?case by (rule Cons.IH)
qed

subsection \<open>The scenario\<close>

lemma scenario_start: "start scenario_configured = Inr scenario_started"
  by code_simp

lemma scenario_after_reachable: "reachable (scenario_after cpuids)"
proof -
  have r: "reachable scenario_started"
    using scenario_start by (rule reachable_started)
  show ?thesis
  proof (cases "run_workers cpuids no_task scenario_started")
    case (Inl e)
    with r show ?thesis by (simp add: scenario_after_def)
  next
    case (Inr res)
    obtain out s where res: "res = (out, s)" by (cases res)
    from r Inr [unfolded res] have "reachable s" by (rule run_workers_reachable)
    with Inr res show ?thesis by (simp add: scenario_after_def)
  qed
qed

lemma six_start: "start six_configured = Inr six_started"
  by code_simp

lemma six_after_reachable: "reachable (six_after cpuids)"
proof -
  have r: "reachable six_started"
    using six_start by (rule reachable_started)
  show ?thesis
  proof (cases "run_workers cpuids no_task six_started")
    case (Inl e)
    with r show ?thesis by (simp add: six_after_def)
  next
    case (Inr res)
    obtain out s where res: "res = (out, s)" by (cases res)
    from r Inr [unfolded res] have "reachable s" by (rule run_workers_reachable)
    with Inr res show ?thesis by (simp add: six_after_def)
  qed
qed

section \<open>Stop and abort\<close>

text \<open>
  C9: \<^verbatim>\<open>stop()\<close> and \<^verbatim>\<open>abort()\<close> are the same state transformer: from the same state both
  give the same state, which is the old one with the run marked complete and nothing
  else changed.
\<close>

theorem stop_abort_same_effect:
  "stop s = abort s \<and> abort s = s\<lparr> completed := True \<rparr> \<and> completed (stop s)"
  by (simp add: stop_def abort_def)

text \<open>
  C6: after \<^verbatim>\<open>abort()\<close>, called in any state, every later call of \<^verbatim>\<open>get_next_task\<close>
  returns \<open>COMPLETE\<close>, whichever workers call and however often: a run of such calls
  returns nothing but \<open>COMPLETE\<close> and leaves the scheduler as \<^verbatim>\<open>abort()\<close> left it, and
  in every state that the scheduler gets to afterwards (by calls of \<^verbatim>\<open>get_next_task\<close>
  and by the other calls of a run) a call by any worker returns \<open>COMPLETE\<close>. No call
  returns \<open>NEWTASK\<close> or \<open>WAITING\<close> again.
\<close>

theorem abort_then_complete:
  "run_workers cpuids t0 (abort s) = Inr (map (\<lambda>cpuid. (COMPLETE, t0)) cpuids, abort s) \<and>
   (later (abort s) s' \<longrightarrow> get_next_task cpuid t s' = Inr (COMPLETE, t, s'))"
proof
  show "run_workers cpuids t0 (abort s) = Inr (map (\<lambda>cpuid. (COMPLETE, t0)) cpuids, abort s)"
  proof (induction cpuids)
    case Nil
    show ?case by simp
  next
    case (Cons cpuid rest)
    have "get_next_task cpuid t0 (abort s) = Inr (COMPLETE, t0, abort s)"
      by (rule get_next_task_completed) (simp add: abort_def)
    with Cons show ?case by simp
  qed
next
  show "later (abort s) s' \<longrightarrow> get_next_task cpuid t s' = Inr (COMPLETE, t, s')"
  proof
    assume "later (abort s) s'"
    moreover have "completed (abort s)" by (simp add: abort_def)
    ultimately have "completed s'" by (rule later_completed)
    then show "get_next_task cpuid t s' = Inr (COMPLETE, t, s')"
      by (rule get_next_task_completed)
  qed
qed

theorem abort_then_complete_witness:
  "later (abort (scenario_after [0, 1, 0])) (perform (ADD_TASK_TO_ALL 3) (abort (scenario_after [0, 1, 0]))) \<and>
   get_next_task 1 no_task (perform (ADD_TASK_TO_ALL 3) (abort (scenario_after [0, 1, 0])))
     = Inr (COMPLETE, no_task, perform (ADD_TASK_TO_ALL 3) (abort (scenario_after [0, 1, 0]))) \<and>
   run_workers [1, 0] no_task (abort (scenario_after [0, 1, 0]))
     = Inr ([(COMPLETE, no_task), (COMPLETE, no_task)], abort (scenario_after [0, 1, 0]))"
proof -
  let ?s = "scenario_after [0, 1, 0]"
  have l: "later (abort ?s) (perform (ADD_TASK_TO_ALL 3) (abort ?s))"
    by (rule later.called [OF later.now])
  note inst = abort_then_complete [of "[1, 0]" no_task ?s "perform (ADD_TASK_TO_ALL 3) (abort ?s)" 1 no_task]
  from inst have "run_workers [1, 0] no_task (abort ?s)
      = Inr (map (\<lambda>cpuid. (COMPLETE, no_task)) [1, 0 :: size_t], abort ?s)"
    by (rule conjunct1)
  then have runs: "run_workers [1, 0] no_task (abort ?s)
      = Inr ([(COMPLETE, no_task), (COMPLETE, no_task)], abort ?s)"
    by (simp only: list.map)
  from inst l have "get_next_task 1 no_task (perform (ADD_TASK_TO_ALL 3) (abort ?s))
      = Inr (COMPLETE, no_task, perform (ADD_TASK_TO_ALL 3) (abort ?s))"
    by (rule conjunct2 [THEN mp])
  with l runs show ?thesis by (intro conjI)
qed

section \<open>Registration\<close>

text \<open>
  C8: \<^verbatim>\<open>add_task\<close>, \<^verbatim>\<open>add_tasks\<close> and \<^verbatim>\<open>add_task_to_all\<close> each overwrite the one update
  function of the scheduler and change nothing else. The vertices given to
  \<^verbatim>\<open>add_tasks\<close> (and the priority) have no effect on the state, hence none on what the
  workers are handed afterwards. A later registration replaces the function of an
  earlier one.
\<close>

theorem registration_overwrites_function:
  "add_task task p1 s = s\<lparr> update_function := task_function task \<rparr> \<and>
   add_tasks vertices func p2 s = s\<lparr> update_function := func \<rparr> \<and>
   add_task_to_all func p3 s = s\<lparr> update_function := func \<rparr> \<and>
   add_tasks vertices func p2 s = add_tasks vertices' func p2' s \<and>
   run_workers cpuids t0 (add_tasks vertices func p2 s)
     = run_workers cpuids t0 (add_tasks vertices' func p2' s) \<and>
   add_task task p1 (add_tasks vertices func p2 s) = add_task task p1 s \<and>
   add_task task p1 (add_task_to_all func p3 s) = add_task task p1 s \<and>
   add_tasks vertices func' p2 (add_task task p1 s) = add_tasks vertices func' p2 s \<and>
   add_tasks vertices func' p2 (add_task_to_all func p3 s) = add_tasks vertices func' p2 s \<and>
   add_task_to_all func' p3 (add_task task p1 s) = add_task_to_all func' p3 s \<and>
   add_task_to_all func' p3 (add_tasks vertices func p2 s) = add_task_to_all func' p3 s"
  by (simp add: add_task_def add_tasks_def add_task_to_all_def)

section \<open>Options\<close>

text \<open>
  C4 (the code departs from it): setting the option \<open>UPDATE_FUNCTION\<close> should succeed.
  In the code the first \<^verbatim>\<open>if\<close> has no \<^verbatim>\<open>else\<close>, so after storing the function the call
  goes on to the second \<^verbatim>\<open>if\<close>, whose \<^verbatim>\<open>else\<close> branch is \<^verbatim>\<open>assert(false)\<close>: for every
  function and every scheduler the call ends in the failed assertion.
\<close>

theorem set_option_update_function_asserts:
  "set_option_scheduler UPDATE_FUNCTION func s = Inl AssertionFailed"
  by (simp add: set_option_scheduler_def)

lemma set_option_max_iterations:
  "set_option_scheduler MAX_ITERATIONS k s = Inr (s\<lparr> max_iterations := k \<rparr>)"
  by (simp add: set_option_scheduler_def)

lemma set_option_other:
  "set_option_scheduler (OTHER_OPTION n) v s = Inl AssertionFailed"
  by (simp add: set_option_scheduler_def)

section \<open>The task variable\<close>

text \<open>
  C10: when \<^verbatim>\<open>get_next_task\<close> returns \<open>WAITING\<close> or \<open>COMPLETE\<close>, the task variable
  \<^verbatim>\<open>ret_task\<close> holds after the call what it held before; only the \<open>NEWTASK\<close> branch
  assigns to it.
\<close>

theorem ret_task_kept_unless_newtask:
  "get_next_task cpuid ret_task s = Inr (st, t', s') \<Longrightarrow> st \<noteq> NEWTASK \<Longrightarrow> t' = ret_task"
  by (auto simp: get_next_task_def Let_def split: if_splits)

theorem ret_task_kept_unless_newtask_witness:
  "fst (projr (get_next_task 0 \<lparr> task_vertex = 5, task_function = 9 \<rparr> scenario_started)) = WAITING \<and>
   fst (snd (projr (get_next_task 0 \<lparr> task_vertex = 5, task_function = 9 \<rparr> scenario_started)))
     = \<lparr> task_vertex = 5, task_function = 9 \<rparr>"
proof -
  let ?t = "\<lparr> task_vertex = 5, task_function = 9 \<rparr>"
  let ?r = "projr (get_next_task 0 ?t scenario_started)"
  have call: "get_next_task 0 ?t scenario_started = Inr (WAITING, fst (snd ?r), snd (snd ?r))"
    by code_simp
  have "WAITING \<noteq> NEWTASK" by simp
  with call have "fst (snd ?r) = ?t" by (rule ret_task_kept_unless_newtask)
  moreover have "fst ?r = WAITING" by code_simp
  ultimately show ?thesis by simp
qed

section \<open>The epoch advances with the last waiter\<close>

lemma parked_bounded: "parked s \<subseteq> {..<length (cpu_index s)}"
  by (auto simp: parked_def)

lemma finite_parked [simp]: "finite (parked s)"
  using parked_bounded finite_lessThan by (rule finite_subset)

lemma parked_renew_cursor:
  assumes "cpu_in_range s cpuid" and "\<not> still_waiting s cpuid"
  shows "parked (renew_cursor cpuid s) = parked s"
  using assms
  by (auto simp: parked_def renew_cursor_def nth_list_update still_waiting_def cpu_in_range_def)

lemma renew_cursor_not_waiting:
  assumes "cpu_in_range s cpuid"
  shows "cpu_waiting (renew_cursor cpuid s) ! unat cpuid = 0"
  using assms by (simp add: renew_cursor_def cpu_in_range_def)

lemma renew_cursor_current:
  assumes "cpu_in_range s cpuid" and "barrier_ok s"
  shows "cpu_color (renew_cursor cpuid s) ! unat cpuid = color s"
  using assms by (auto simp: renew_cursor_def cpu_in_range_def barrier_ok_def)

lemma renew_cursor_stale:
  assumes "cpu_in_range s cpuid" and "barrier_ok s" and "w < length (cpu_index s)"
  shows "cpu_color (renew_cursor cpuid s) ! w = color s \<or>
         (cpu_waiting (renew_cursor cpuid s) ! w \<noteq> 0 \<and> cpu_color (renew_cursor cpuid s) ! w + 1 = color s)"
  using assms
  by (cases "w = unat cpuid")
     (auto simp: renew_cursor_def cpu_in_range_def barrier_ok_def nth_list_update)

lemma barrier_ok_renew_cursor:
  assumes "cpu_in_range s cpuid" and "\<not> still_waiting s cpuid" and "barrier_ok s"
  shows "barrier_ok (renew_cursor cpuid s)"
  using assms renew_cursor_stale [OF assms(1,3)]
  by (simp add: barrier_ok_def parked_renew_cursor)

text \<open>The worker that joins the waiters: the counter keeps counting them.\<close>

lemma barrier_ok_enter_waiting:
  assumes rep: "length (cpu_index s) < 2 ^ 63"
    and ok: "barrier_ok s"
    and i: "unat cpuid < length (cpu_index s)" "unat cpuid < length (cpu_waiting s)"
    and flag: "cpu_waiting s ! unat cpuid = 0"
    and cur: "cpu_color s ! unat cpuid = color s"
  shows "barrier_ok (enter_waiting cpuid s)"
    and "color (enter_waiting cpuid s) \<noteq> color s \<Longrightarrow> w < length (cpu_index s) \<Longrightarrow>
         cpu_waiting (enter_waiting cpuid s) ! w \<noteq> 0 \<and> cpu_color (enter_waiting cpuid s) ! w = color s"
proof -
  let ?n = "length (cpu_index s)"
  let ?i = "unat cpuid"
  let ?s' = "enter_waiting cpuid s"
  let ?Q = "insert ?i (parked s)"
  have notin: "?i \<notin> parked s" using flag by (simp add: parked_def)
  have Q: "?Q \<subseteq> {..<?n}" using parked_bounded [of s] i(1) by auto
  have cardQ: "card ?Q = card (parked s) + 1" using notin by simp
  have "card ?Q \<le> card {..<?n}" using Q by (intro card_mono) simp_all
  then have le: "card (parked s) + 1 \<le> ?n" using cardQ by simp
  have w: "unat (waiting s) = card (parked s)" using ok by (simp add: barrier_ok_def)
  have "unat (waiting s) + unat (1 :: size_t) < 2 ^ LENGTH(64)"
    using w le rep by simp
  then have "unat (waiting s + 1) = unat (waiting s) + unat (1 :: size_t)"
    by (simp only: unat_add_lem)
  then have inc: "unat (waiting s + 1) = card (parked s) + 1" using w by simp
  have n: "unat (vec_size (cpu_index s)) = ?n" using rep by (rule unat_vec_size)
  have inQ: "cpu_waiting ?s' ! v \<noteq> 0 \<and> cpu_color ?s' ! v = color s" if "v \<in> ?Q" for v
    using that i(2) cur by (cases "v = ?i") (auto simp: parked_def)
  have stale: "cpu_color s ! v = color s \<or> (cpu_waiting s ! v \<noteq> 0 \<and> cpu_color s ! v + 1 = color s)"
    if "v < ?n" for v
    using ok that by (simp add: barrier_ok_def)
  show "barrier_ok ?s'"
  proof (cases "waiting s + 1 = vec_size (cpu_index s)")
    case True
    then have "card (parked s) + 1 = ?n" using inc n by simp
    then have "card ?Q = card {..<?n}" using cardQ by simp
    with Q have all: "?Q = {..<?n}" by (intro card_subset_eq) simp_all
    have col: "color ?s' = color s + 1" and wt: "waiting ?s' = 0"
      using True by (simp_all add: enter_waiting_color enter_waiting_waiting)
    have "parked ?s' = {}"
    proof -
      have "v \<notin> parked ?s'" for v
      proof
        assume v: "v \<in> parked ?s'"
        then have "v < ?n" by (simp add: parked_def)
        then have "v \<in> ?Q" using all by simp
        then have "cpu_color ?s' ! v = color s" using inQ by simp
        moreover from v have "cpu_color ?s' ! v = color s + 1" by (simp add: parked_def col)
        ultimately show False by simp
      qed
      then show ?thesis by auto
    qed
    moreover have "cpu_waiting ?s' ! v \<noteq> 0 \<and> cpu_color ?s' ! v + 1 = color ?s'" if "v < ?n" for v
    proof -
      from that all have "v \<in> ?Q" by simp
      with inQ col show ?thesis by simp
    qed
    ultimately show ?thesis by (simp add: barrier_ok_def wt)
  next
    case False
    have col: "color ?s' = color s" and wt: "waiting ?s' = waiting s + 1"
      using False by (simp_all add: enter_waiting_color enter_waiting_waiting)
    have "parked ?s' = ?Q"
      using i cur by (auto simp: parked_def col nth_list_update)
    moreover have "cpu_color ?s' ! v = color ?s' \<or>
        (cpu_waiting ?s' ! v \<noteq> 0 \<and> cpu_color ?s' ! v + 1 = color ?s')" if "v < ?n" for v
      using stale [OF that] i(2) cur by (cases "v = ?i") (auto simp: col)
    ultimately show ?thesis using inc cardQ by (simp add: barrier_ok_def wt)
  qed
  show "cpu_waiting ?s' ! w \<noteq> 0 \<and> cpu_color ?s' ! w = color s"
    if adv: "color ?s' \<noteq> color s" and wn: "w < ?n"
  proof -
    from adv have "waiting s + 1 = vec_size (cpu_index s)"
      by (auto simp: enter_waiting_color split: if_splits)
    then have "card (parked s) + 1 = ?n" using inc n by simp
    then have "card ?Q = card {..<?n}" using cardQ by simp
    with Q have "?Q = {..<?n}" by (intro card_subset_eq) simp_all
    with wn have "w \<in> ?Q" by simp
    then show ?thesis by (rule inQ)
  qed
qed

lemma barrier_ok_step:
  assumes step: "get_next_task cpuid t s = Inr (st, t', s')"
    and rep: "length (cpu_index s) < 2 ^ 63"
    and ok: "barrier_ok s"
  shows "barrier_ok s'"
    and "color s' \<noteq> color s \<Longrightarrow> w < length (cpu_index s) \<Longrightarrow>
         cpu_waiting s' ! w \<noteq> 0 \<and> cpu_color s' ! w = color s"
proof -
  let ?s1 = "renew_cursor cpuid s"
  have "barrier_ok s' \<and>
        (color s' \<noteq> color s \<longrightarrow> w < length (cpu_index s) \<longrightarrow>
           cpu_waiting s' ! w \<noteq> 0 \<and> cpu_color s' ! w = color s)"
    using step
  proof (cases rule: get_next_task_cases)
    case Done
    with ok show ?thesis by simp
  next
    case Still
    with ok show ?thesis by simp
  next
    case Budget
    with barrier_ok_renew_cursor [OF Budget(2,3) ok] show ?thesis by simp
  next
    case Task
    with barrier_ok_renew_cursor [OF Task(2,3) ok] show ?thesis by simp
  next
    case Park
    have rep1: "length (cpu_index ?s1) < 2 ^ 63" using rep by simp
    have ok1: "barrier_ok ?s1" by (rule barrier_ok_renew_cursor [OF Park(2,3) ok])
    have i: "unat cpuid < length (cpu_index ?s1)" "unat cpuid < length (cpu_waiting ?s1)"
      using Park(2) by (simp_all add: cpu_in_range_def)
    have flag: "cpu_waiting ?s1 ! unat cpuid = 0"
      by (rule renew_cursor_not_waiting [OF Park(2)])
    have cur: "cpu_color ?s1 ! unat cpuid = color ?s1"
      using renew_cursor_current [OF Park(2) ok] by simp
    note ew = barrier_ok_enter_waiting [OF rep1 ok1 i flag cur]
    from ew(1) ew(2) [of w] Park(9) show ?thesis by simp
  qed
  then show "barrier_ok s'"
    and "color s' \<noteq> color s \<Longrightarrow> w < length (cpu_index s) \<Longrightarrow>
         cpu_waiting s' ! w \<noteq> 0 \<and> cpu_color s' ! w = color s"
    by simp_all
qed

lemma barrier_ok_start:
  assumes "start s = Inr s0"
  shows "barrier_ok s0"
proof -
  have "parked s0 = {}"
    using start_state(2) [OF assms] by (auto simp: parked_def)
  moreover have "waiting s0 = 0"
    using assms by (auto simp: start_def split: if_splits)
  ultimately show ?thesis
    using start_state(3) [OF assms] by (simp add: barrier_ok_def)
qed

lemma barrier_ok_perform: "barrier_ok (perform c s) = barrier_ok s"
  by (simp add: barrier_ok_def parked_def)

lemma reachable_barrier_ok:
  "reachable s \<Longrightarrow> representable s \<Longrightarrow> barrier_ok s"
proof (induction rule: reachable_induct)
  case (started s s0)
  then show ?case by (simp add: barrier_ok_start)
next
  case (stepped s cpuid t st t' s')
  have rep: "representable s"
    using stepped.prems representable_step [OF stepped.hyps(2)] by simp
  then have "length (cpu_index s) < 2 ^ 63" by (simp add: representable_def)
  from stepped.hyps(2) this stepped.IH [OF rep] show ?case
    by (rule barrier_ok_step(1))
next
  case (called s c)
  then show ?case by (simp add: barrier_ok_perform representable_def)
qed

text \<open>
  C2: in a run where the workers call \<^verbatim>\<open>get_next_task\<close> one after the other, a call
  increments the epoch \<^verbatim>\<open>color\<close> exactly when it is a call that joins the waiters (it
  returns \<open>WAITING\<close> and not because the worker was waiting already) and its increment
  of the counter \<^verbatim>\<open>waiting\<close> makes the counter equal to the number of cpus. That call
  increments the epoch by one and resets the counter to zero. Every other call leaves
  the epoch as it is; it leaves the counter as it is, or, when it joins the waiters
  below the number of cpus, one higher. In a run the counter counts the workers that
  wait in the current epoch, so the epoch does not advance before all of them wait:
  after the call that advances it, every worker waits with the old epoch.
\<close>

theorem epoch_advances_with_last_waiter:
  assumes "get_next_task cpuid t s = Inr (st, t', s')"
  shows "color s' =
           (if st = WAITING \<and> \<not> still_waiting s cpuid \<and> waiting s + 1 = vec_size (cpu_index s)
            then color s + 1 else color s) \<and>
         waiting s' =
           (if st = WAITING \<and> \<not> still_waiting s cpuid
            then (if waiting s + 1 = vec_size (cpu_index s) then 0 else waiting s + 1)
            else waiting s) \<and>
         (reachable s \<and> representable s \<and> color s' \<noteq> color s \<longrightarrow>
            (\<forall>w<length (cpu_index s). cpu_waiting s' ! w \<noteq> 0 \<and> cpu_color s' ! w = color s))"
proof -
  have counters: "color s' =
           (if st = WAITING \<and> \<not> still_waiting s cpuid \<and> waiting s + 1 = vec_size (cpu_index s)
            then color s + 1 else color s) \<and>
         waiting s' =
           (if st = WAITING \<and> \<not> still_waiting s cpuid
            then (if waiting s + 1 = vec_size (cpu_index s) then 0 else waiting s + 1)
            else waiting s)"
    using assms
    by (auto simp: get_next_task_def Let_def still_waiting_def enter_waiting_color
          enter_waiting_waiting split: if_splits)
  have barrier: "cpu_waiting s' ! w \<noteq> 0 \<and> cpu_color s' ! w = color s"
    if "reachable s" "representable s" "color s' \<noteq> color s" "w < length (cpu_index s)" for w
  proof -
    from that(2) have n: "length (cpu_index s) < 2 ^ 63" by (simp add: representable_def)
    from assms n reachable_barrier_ok [OF that(1,2)] that(3,4) show ?thesis
      by (rule barrier_ok_step(2))
  qed
  from counters barrier show ?thesis by blast
qed


theorem epoch_advances_with_last_waiter_witness:
  "get_next_task 1 no_task (scenario_after [0]) = Inr (WAITING, no_task, scenario_after [0, 1]) \<and>
   reachable (scenario_after [0]) \<and>
   representable (scenario_after [0]) \<and>
   \<not> still_waiting (scenario_after [0]) 1 \<and>
   waiting (scenario_after [0]) + 1 = vec_size (cpu_index (scenario_after [0])) \<and>
   color (scenario_after [0, 1]) = color (scenario_after [0]) + 1 \<and>
   color (scenario_after [0, 1]) \<noteq> color (scenario_after [0]) \<and>
   waiting (scenario_after [0, 1]) = 0 \<and>
   cpu_waiting (scenario_after [0, 1]) ! 0 \<noteq> 0 \<and>
   cpu_waiting (scenario_after [0, 1]) ! 1 \<noteq> 0 \<and>
   cpu_color (scenario_after [0, 1]) ! 0 = color (scenario_after [0]) \<and>
   cpu_color (scenario_after [0, 1]) ! 1 = color (scenario_after [0])"
proof -
  let ?s = "scenario_after [0]"
  let ?s' = "scenario_after [0, 1]"
  have state: "?s = scenario_started\<lparr> cpu_index := [2, 1], cpu_waiting := [1, 0], waiting := 1 \<rparr>"
    by code_simp
  have call: "get_next_task 1 no_task ?s = Inr (WAITING, no_task, ?s')"
    by code_simp
  have run: "reachable ?s"
    by (rule scenario_after_reachable)
  have rep: "representable ?s"
    by (simp add: state representable_def scenario_started_def)
  have n: "length (cpu_index ?s) = 2"
    by (simp add: state scenario_started_def)
  have joins: "\<not> still_waiting ?s 1"
    by code_simp
  have last: "waiting ?s + 1 = vec_size (cpu_index ?s)"
    by code_simp
  note inst = epoch_advances_with_last_waiter [OF call]
  from inst joins last have col: "color ?s' = color ?s + 1"
    by simp
  from inst joins last have wt: "waiting ?s' = 0"
    by simp
  from col have adv: "color ?s' \<noteq> color ?s"
    by simp
  from inst run rep adv
  have all: "\<forall>w<length (cpu_index ?s). cpu_waiting ?s' ! w \<noteq> 0 \<and> cpu_color ?s' ! w = color ?s"
    by blast
  have "(0::nat) < length (cpu_index ?s)" and "(1::nat) < length (cpu_index ?s)"
    by (simp_all add: n)
  with all have "cpu_waiting ?s' ! 0 \<noteq> 0 \<and> cpu_color ?s' ! 0 = color ?s"
    and "cpu_waiting ?s' ! 1 \<noteq> 0 \<and> cpu_color ?s' ! 1 = color ?s"
    by blast+
  with call run rep joins last col adv wt show ?thesis
    by (intro conjI) simp_all
qed

section \<open>The iteration budget\<close>

lemma within_budget_cong:
  "max_iterations s' = max_iterations s \<Longrightarrow> color_blocks s' = color_blocks s \<Longrightarrow>
   cpu_color s' ! w = cpu_color s ! w \<Longrightarrow> within_budget s' w = within_budget s w"
  by (simp add: within_budget_def)

lemma within_budget_enter_waiting [simp]:
  "within_budget (enter_waiting cpuid s) w = within_budget s w"
  by (rule within_budget_cong) simp_all

lemma waiting_within_budget_step:
  assumes step: "get_next_task cpuid t s = Inr (st, t', s')"
    and inv: "\<And>w. w < length (cpu_index s) \<Longrightarrow> cpu_waiting s ! w \<noteq> 0 \<Longrightarrow> within_budget s w"
    and w: "w < length (cpu_index s')" "cpu_waiting s' ! w \<noteq> 0"
  shows "within_budget s' w"
proof (cases "w = unat cpuid")
  case False
  note fr = get_next_task_frame [OF step] and ot = get_next_task_other [OF step False]
  have eq: "within_budget s' w = within_budget s w"
    by (rule within_budget_cong [OF fr(2) fr(1) ot(2)])
  have "w < length (cpu_index s)" using w(1) fr(5) by simp
  moreover have "cpu_waiting s ! w \<noteq> 0" using w(2) ot(3) by simp
  ultimately have "within_budget s w" by (rule inv)
  with eq show ?thesis by simp
next
  case True
  from step show ?thesis
  proof (cases rule: get_next_task_cases)
    case Done
    from w Done(4) show ?thesis by (auto intro: inv)
  next
    case Still
    from w Still(6) show ?thesis by (auto intro: inv)
  next
    case Budget
    from Budget(2) have "unat cpuid < length (cpu_waiting s)" by (simp add: cpu_in_range_def)
    then have "cpu_waiting (renew_cursor cpuid s) ! unat cpuid = 0 \<or> cpu_waiting s ! unat cpuid = 0"
      by (simp add: renew_cursor_def)
    moreover have "cpu_waiting s ! unat cpuid = 0 \<Longrightarrow> cpu_waiting (renew_cursor cpuid s) ! unat cpuid = 0"
      by (simp add: renew_cursor_def)
    ultimately have "cpu_waiting s' ! w = 0" using Budget(8) True by auto
    with w(2) show ?thesis by simp
  next
    case Task
    with True show ?thesis by simp
  next
    case Park
    with True show ?thesis by simp
  qed
qed

lemma reachable_waiting_within_budget:
  "reachable s \<Longrightarrow> w < length (cpu_index s) \<Longrightarrow> cpu_waiting s ! w \<noteq> 0 \<Longrightarrow> within_budget s w"
proof (induction arbitrary: w rule: reachable_induct)
  case (started s s0)
  then show ?case using start_state(2) by blast
next
  case (stepped s cpuid t st t' s')
  from stepped.hyps(2) stepped.IH stepped.prems show ?case
    by (rule waiting_within_budget_step)
next
  case (called s c)
  have "within_budget (perform c s) w = within_budget s w"
    by (rule within_budget_cong) simp_all
  with called show ?case by simp
qed

text \<open>
  C7: with \<^verbatim>\<open>max_iterations\<close> \<open>k\<close> and \<open>c \<ge> 1\<close> color blocks, a call of
  \<^verbatim>\<open>get_next_task\<close> by a worker whose observed epoch (its \<^verbatim>\<open>cpu_color\<close> entry, as the call
  leaves it) satisfies \<open>epoch div c \<ge> k\<close> never returns \<open>NEWTASK\<close>, in any state;
  in a state of a run it returns \<open>COMPLETE\<close>.
\<close>

theorem budget_exhausted_gives_complete:
  assumes "color_blocks s \<noteq> []"
    and "get_next_task cpuid t s = Inr (st, t', s')"
    and "max_iterations s \<le> cpu_color s' ! unat cpuid div vec_size (color_blocks s)"
  shows "st \<noteq> NEWTASK \<and> (reachable s \<longrightarrow> st = COMPLETE)"
  using assms(2)
proof (cases rule: get_next_task_cases)
  case Still
  have "\<not> reachable s"
  proof
    assume "reachable s"
    then have "within_budget s (unat cpuid)"
      using Still(2,3) by (simp add: reachable_waiting_within_budget still_waiting_def cpu_in_range_def)
    with Still(6) assms(3) show False by (simp add: within_budget_def)
  qed
  with Still(4) show ?thesis by simp
next
  case Task
  with assms(3) show ?thesis by (simp add: within_budget_def)
next
  case Park
  with assms(3) show ?thesis by (simp add: within_budget_def)
qed simp_all

theorem budget_exhausted_gives_complete_witness:
  "color_blocks (scenario_after [0, 1, 0, 1, 0, 1]) \<noteq> [] \<and>
   get_next_task 0 no_task (scenario_after [0, 1, 0, 1, 0, 1])
     = Inr (COMPLETE, no_task, scenario_after [0, 1, 0, 1, 0, 1, 0]) \<and>
   max_iterations (scenario_after [0, 1, 0, 1, 0, 1])
     \<le> cpu_color (scenario_after [0, 1, 0, 1, 0, 1, 0]) ! unat (0 :: size_t)
          div vec_size (color_blocks (scenario_after [0, 1, 0, 1, 0, 1])) \<and>
   reachable (scenario_after [0, 1, 0, 1, 0, 1]) \<and>
   COMPLETE \<noteq> NEWTASK"
proof -
  let ?s = "scenario_after [0, 1, 0, 1, 0, 1]"
  let ?s' = "scenario_after [0, 1, 0, 1, 0, 1, 0]"
  have blocks: "color_blocks ?s \<noteq> []"
    by code_simp
  have call: "get_next_task 0 no_task ?s = Inr (COMPLETE, no_task, ?s')"
    by code_simp
  have spent: "max_iterations ?s \<le> cpu_color ?s' ! unat (0 :: size_t) div vec_size (color_blocks ?s)"
    by code_simp
  have run: "reachable ?s"
    by (rule scenario_after_reachable)
  from budget_exhausted_gives_complete [OF blocks call spent] blocks call spent run
  show ?thesis by simp
qed

section \<open>Every worker keeps to its residue class\<close>

subsection \<open>The cursor of a worker stays in its residue class\<close>

lemma renew_cursor_woken:
  assumes "cpu_in_range s cpuid" and "cpu_waiting s ! unat cpuid \<noteq> 0"
  shows "cpu_index (renew_cursor cpuid s) ! unat cpuid = cpuid"
    and "cpu_color (renew_cursor cpuid s) ! unat cpuid = color s"
    and "cpu_waiting (renew_cursor cpuid s) ! unat cpuid = 0"
  using assms by (simp_all add: renew_cursor_def cpu_in_range_def)

lemma renew_cursor_moved:
  assumes "cpu_in_range s cpuid" and "cpu_waiting s ! unat cpuid = 0"
  shows "cpu_index (renew_cursor cpuid s) ! unat cpuid
           = cpu_index s ! unat cpuid + vec_size (cpu_index s)"
    and "cpu_color (renew_cursor cpuid s) = cpu_color s"
    and "cpu_waiting (renew_cursor cpuid s) = cpu_waiting s"
  using assms by (simp_all add: renew_cursor_def cpu_in_range_def)

lemma cursor_ok_cong:
  assumes "max_iterations s' = max_iterations s" and "color_blocks s' = color_blocks s"
    and "length (cpu_index s') = length (cpu_index s)"
    and "cpu_index s' ! w = cpu_index s ! w" and "cpu_color s' ! w = cpu_color s ! w"
    and "cpu_waiting s' ! w = cpu_waiting s ! w"
  shows "cursor_ok s' w = cursor_ok s w"
  using assms by (simp add: cursor_ok_def within_budget_def)

lemma cursor_ok_waiting:
  "cpu_waiting s ! w \<noteq> 0 \<Longrightarrow> cursor_ok s w = (unat (cpu_index s ! w) mod length (cpu_index s) = w)"
  by (simp add: cursor_ok_def)

lemma cursor_ok_active:
  "cpu_waiting s ! w = 0 \<Longrightarrow>
   cursor_ok s w =
     (\<not> within_budget s w \<or> cpu_index s ! w = of_nat w \<or>
      (unat (cpu_index s ! w) mod length (cpu_index s) = w \<and>
       unat (cpu_index s ! w)
         < length (color_blocks s ! unat (cpu_color s ! w mod vec_size (color_blocks s)))))"
  by (simp add: cursor_ok_def Let_def)

text \<open>A worker that is scanning has a cursor that \<open>+= cpu_index.size()\<close> does not wrap.\<close>

lemma scanning_cursor_bounded:
  assumes rep: "representable s" and w: "w < length (cpu_index s)"
    and ok: "cursor_ok s w" and act: "cpu_waiting s ! w = 0" and wb: "within_budget s w"
    and nz: "vec_size (color_blocks s) \<noteq> 0"
  shows "unat (cpu_index s ! w) < 2 ^ 63" and "unat (cpu_index s ! w) mod length (cpu_index s) = w"
proof -
  let ?b = "color_blocks s ! unat (cpu_color s ! w mod vec_size (color_blocks s))"
  from rep have n: "length (cpu_index s) < 2 ^ 63"
    and blocks: "list_all (\<lambda>b. length b < 2 ^ 63) (color_blocks s)"
    by (simp_all add: representable_def)
  have "?b \<in> set (color_blocks s)"
    using mod_vec_size_in_range [OF nz] by (rule nth_mem)
  with blocks have b: "length ?b < 2 ^ 63" by (simp add: list_all_iff)
  from ok act wb consider (first) "cpu_index s ! w = of_nat w"
    | (later) "unat (cpu_index s ! w) mod length (cpu_index s) = w" "unat (cpu_index s ! w) < length ?b"
    by (auto simp: cursor_ok_active)
  then have "unat (cpu_index s ! w) < 2 ^ 63 \<and> unat (cpu_index s ! w) mod length (cpu_index s) = w"
  proof cases
    case first
    have "unat (of_nat w :: size_t) = w" using w n by (rule unat_of_nat_cpu)
    with first w n show ?thesis by simp
  next
    case later
    with b show ?thesis by simp
  qed
  then show "unat (cpu_index s ! w) < 2 ^ 63" and "unat (cpu_index s ! w) mod length (cpu_index s) = w"
    by simp_all
qed

lemma cursor_ok_step:
  assumes step: "get_next_task cpuid t s = Inr (st, t', s')"
    and rep: "representable s"
    and inv: "\<And>w. w < length (cpu_index s) \<Longrightarrow> cursor_ok s w"
    and w: "w < length (cpu_index s')"
  shows "cursor_ok s' w"
proof (cases "w = unat cpuid")
  case False
  note fr = get_next_task_frame [OF step] and ot = get_next_task_other [OF step False]
  have "cursor_ok s' w = cursor_ok s w"
    by (rule cursor_ok_cong [OF fr(2) fr(1) fr(5) ot])
  moreover have "cursor_ok s w" using w fr(5) by (simp add: inv)
  ultimately show ?thesis by simp
next
  case True
  let ?n = "length (cpu_index s)"
  let ?s1 = "renew_cursor cpuid s"
  from rep have n: "?n < 2 ^ 63" by (simp add: representable_def)
  from step show ?thesis
  proof (cases rule: get_next_task_cases)
    case Done
    with w show ?thesis by (simp add: inv)
  next
    case Still
    with w show ?thesis by (simp add: inv)
  next
    case Budget
    have "cpu_waiting ?s1 ! unat cpuid = 0"
      using renew_cursor_woken(3) [OF Budget(2)] renew_cursor_moved(3) [OF Budget(2)]
      by (cases "cpu_waiting s ! unat cpuid = 0") simp_all
    with Budget(5,8) True show ?thesis by (simp add: cursor_ok_active)
  next
    case Task
    from Task(2) have i: "unat cpuid < ?n" by (simp add: cpu_in_range_def)
    show ?thesis
    proof (cases "cpu_waiting s ! unat cpuid = 0")
      case False
      note wk = renew_cursor_woken [OF Task(2) False]
      from wk(1,3) Task(8) True show ?thesis by (simp add: cursor_ok_active)
    next
      case act: True
      note mv = renew_cursor_moved [OF Task(2) act]
      have wb: "within_budget s (unat cpuid)"
        using Task(5) mv(2) by (simp add: within_budget_def)
      note bd = scanning_cursor_bounded [OF rep i inv [OF i] act wb Task(4)]
      have u: "unat (cpu_index ?s1 ! unat cpuid) = unat (cpu_index s ! unat cpuid) + ?n"
        using mv(1) unat_add_vec_size [OF bd(1) n] by simp
      have "unat (cpu_index ?s1 ! unat cpuid) mod ?n = unat cpuid"
        using u bd(2) by simp
      moreover have "unat (cpu_index ?s1 ! unat cpuid)
          < length (color_blocks ?s1 ! unat (cpu_color ?s1 ! unat cpuid mod vec_size (color_blocks ?s1)))"
        using less_vec_size_in_range [OF Task(6)] by simp
      moreover have "cpu_waiting ?s1 ! unat cpuid = 0" using mv(3) act by simp
      ultimately show ?thesis using Task(8) True by (simp add: cursor_ok_active)
    qed
  next
    case Park
    from Park(2) have i: "unat cpuid < ?n" and iw: "unat cpuid < length (cpu_waiting s)"
      by (simp_all add: cpu_in_range_def)
    have flag: "cpu_waiting s' ! unat cpuid \<noteq> 0"
      using Park(9) iw by simp
    have idx: "cpu_index s' = cpu_index ?s1" using Park(9) by simp
    have "unat (cpu_index ?s1 ! unat cpuid) mod ?n = unat cpuid"
    proof (cases "cpu_waiting s ! unat cpuid = 0")
      case False
      note wk = renew_cursor_woken [OF Park(2) False]
      from wk(1) i show ?thesis by simp
    next
      case act: True
      note mv = renew_cursor_moved [OF Park(2) act]
      have wb: "within_budget s (unat cpuid)"
        using Park(5) mv(2) by (simp add: within_budget_def)
      note bd = scanning_cursor_bounded [OF rep i inv [OF i] act wb Park(4)]
      have u: "unat (cpu_index ?s1 ! unat cpuid) = unat (cpu_index s ! unat cpuid) + ?n"
        using mv(1) unat_add_vec_size [OF bd(1) n] by simp
      show ?thesis using u bd(2) by simp
    qed
    with flag idx True show ?thesis by (simp add: cursor_ok_waiting)
  qed
qed

lemma reachable_cursor_ok:
  "reachable s \<Longrightarrow> representable s \<Longrightarrow> w < length (cpu_index s) \<Longrightarrow> cursor_ok s w"
proof (induction arbitrary: w rule: reachable_induct)
  case (started s s0)
  from start_state(1,2) [OF started.hyps started.prems(2)]
  show ?case by (simp add: cursor_ok_active)
next
  case (stepped s cpuid t st t' s')
  have rep: "representable s"
    using stepped.prems(1) representable_step [OF stepped.hyps(2)] by simp
  from stepped.hyps(2) rep stepped.IH [OF rep] stepped.prems(2) show ?case
    by (rule cursor_ok_step)
next
  case (called s c)
  have "cursor_ok (perform c s) w = cursor_ok s w"
    by (rule cursor_ok_cong) simp_all
  moreover have "representable s"
    using called.prems(1) by (simp add: representable_def)
  ultimately show ?case using called by simp
qed

subsection \<open>The blocks the constructor builds\<close>

lemma push_vertex_blocks:
  assumes inv: "\<And>b. b \<in> set blocks \<Longrightarrow> distinct b \<and> (\<forall>v\<in>set b. v < n)"
    and b: "b \<in> set (push_vertex c n blocks)"
  shows "distinct b \<and> (\<forall>v\<in>set b. v < Suc n)"
proof -
  define resized where
    "resized = (if length blocks \<le> c then blocks @ replicate (c + 1 - length blocks) [] else blocks)"
  have res: "distinct r \<and> (\<forall>v\<in>set r. v < n)" if "r \<in> set resized" for r
    using that inv by (auto simp: resized_def split: if_splits)
  have c: "c < length resized" by (simp add: resized_def)
  have "push_vertex c n blocks = resized[c := resized ! c @ [n]]"
    by (simp add: push_vertex_def resized_def Let_def)
  with b have "b \<in> insert (resized ! c @ [n]) (set resized)"
    using set_update_subset_insert by fastforce
  then consider "b = resized ! c @ [n]" | "b \<in> set resized" by auto
  then show ?thesis
  proof cases
    case 1
    have "distinct (resized ! c) \<and> (\<forall>v\<in>set (resized ! c). v < n)"
      using c by (intro res nth_mem)
    with 1 show ?thesis by auto
  next
    case 2
    with res [OF 2] show ?thesis by auto
  qed
qed

lemma build_blocks_distinct_bounded:
  "b \<in> set (build_blocks color_of n) \<Longrightarrow> distinct b \<and> (\<forall>v\<in>set b. v < n)"
proof (induction n arbitrary: b)
  case 0
  then show ?case by simp
next
  case (Suc n)
  from Suc.IH Suc.prems [simplified] show ?case
    by (rule push_vertex_blocks)
qed

lemma build_blocks_distinct: "b \<in> set (build_blocks color_of n) \<Longrightarrow> distinct b"
  by (simp add: build_blocks_distinct_bounded)

lemma length_push_vertex: "length (push_vertex c i blocks) = max (length blocks) (Suc c)"
  by (auto simp: push_vertex_def Let_def)

lemma nth_push_vertex:
  assumes "k < length (push_vertex c i blocks)"
  shows "push_vertex c i blocks ! k =
           (if k = c then (if c < length blocks then blocks ! c else []) @ [i]
            else if k < length blocks then blocks ! k else [])"
  using assms
  by (auto simp: push_vertex_def Let_def nth_append nth_list_update)

lemma build_blocks_color:
  "k < length (build_blocks color_of n) \<Longrightarrow> v \<in> set (build_blocks color_of n ! k) \<Longrightarrow>
   color_of v = k"
proof (induction n arbitrary: k v)
  case 0
  then show ?case by simp
next
  case (Suc n)
  let ?old = "build_blocks color_of n"
  from Suc.prems(1) have k: "k < length (push_vertex (color_of n) n ?old)" by simp
  note nth = nth_push_vertex [OF k]
  show ?case
  proof (cases "k = color_of n")
    case True
    with Suc.prems(2) nth
    have "v \<in> set (if color_of n < length ?old then ?old ! color_of n else []) \<or> v = n"
      by auto
    then show ?thesis
    proof
      assume "v \<in> set (if color_of n < length ?old then ?old ! color_of n else [])"
      then have "color_of n < length ?old" "v \<in> set (?old ! color_of n)"
        by (auto split: if_splits)
      then have "color_of v = color_of n" by (rule Suc.IH)
      with True show ?thesis by simp
    next
      assume "v = n"
      with True show ?thesis by simp
    qed
  next
    case False
    with Suc.prems(2) nth have "k < length ?old" "v \<in> set (?old ! k)"
      by (auto split: if_splits)
    then show ?thesis by (rule Suc.IH)
  qed
qed

text \<open>Two entries of the blocks of the constructor at different places are different vertices.\<close>

lemma build_blocks_entries_differ:
  assumes ka: "ka < length (build_blocks color_of n)" and kb: "kb < length (build_blocks color_of n)"
    and ia: "ia < length (build_blocks color_of n ! ka)"
    and ib: "ib < length (build_blocks color_of n ! kb)"
    and ne: "ia \<noteq> ib"
  shows "build_blocks color_of n ! ka ! ia \<noteq> build_blocks color_of n ! kb ! ib"
proof (cases "ka = kb")
  case True
  have "build_blocks color_of n ! ka \<in> set (build_blocks color_of n)"
    using ka by (rule nth_mem)
  then have "distinct (build_blocks color_of n ! ka)"
    by (rule build_blocks_distinct)
  with ia ib ne True show ?thesis by (simp add: nth_eq_iff_index_eq)
next
  case False
  have "color_of (build_blocks color_of n ! ka ! ia) = ka"
    using ka nth_mem [OF ia] by (rule build_blocks_color)
  moreover have "color_of (build_blocks color_of n ! kb ! ib) = kb"
    using kb nth_mem [OF ib] by (rule build_blocks_color)
  ultimately show ?thesis using False by auto
qed

text \<open>What a call that hands out a task leaves behind.\<close>

lemma newtask_call:
  assumes step: "get_next_task cpuid t s = Inr (NEWTASK, t', s')"
    and run: "reachable s" and rep: "representable s"
  shows "unat cpuid < length (cpu_index s)"
    and "unat (cpu_index s' ! unat cpuid) mod length (cpu_index s) = unat cpuid"
    and "unat (cpu_color s' ! unat cpuid mod vec_size (color_blocks s)) < length (color_blocks s)"
    and "unat (cpu_index s' ! unat cpuid)
           < length (color_blocks s ! unat (cpu_color s' ! unat cpuid mod vec_size (color_blocks s)))"
    and "task_vertex t' =
           color_blocks s ! unat (cpu_color s' ! unat cpuid mod vec_size (color_blocks s))
             ! unat (cpu_index s' ! unat cpuid)"
proof -
  note fr = get_next_task_frame [OF step]
  from step have range: "cpu_in_range s cpuid" and wb: "within_budget s' (unat cpuid)"
    and flag: "cpu_waiting s' ! unat cpuid = 0"
    and tv: "task_vertex t' =
           color_blocks s ! unat (cpu_color s' ! unat cpuid mod vec_size (color_blocks s))
             ! unat (cpu_index s' ! unat cpuid)"
    by (cases rule: get_next_task_cases; simp add: renew_cursor_def cpu_in_range_def)+
  from range show i: "unat cpuid < length (cpu_index s)" by (simp add: cpu_in_range_def)
  have run': "reachable s'" using run step by (rule reachable_stepped)
  have rep': "representable s'" using rep representable_step [OF step] by simp
  have i': "unat cpuid < length (cpu_index s')" using i fr(5) by simp
  note ok = reachable_cursor_ok [OF run' rep' i']
  from rep have "length (cpu_index s) < 2 ^ 63" by (simp add: representable_def)
  with i have "unat (of_nat (unat cpuid) :: size_t) mod length (cpu_index s) = unat cpuid"
    by simp
  with ok flag wb fr(5) show "unat (cpu_index s' ! unat cpuid) mod length (cpu_index s) = unat cpuid"
    by (auto simp: cursor_ok_active)
  from color_block_reads_in_range [OF step]
  show "unat (cpu_color s' ! unat cpuid mod vec_size (color_blocks s)) < length (color_blocks s)"
    and "unat (cpu_index s' ! unat cpuid)
           < length (color_blocks s ! unat (cpu_color s' ! unat cpuid mod vec_size (color_blocks s)))"
    by simp_all
  from tv show "task_vertex t' =
           color_blocks s ! unat (cpu_color s' ! unat cpuid mod vec_size (color_blocks s))
             ! unat (cpu_index s' ! unat cpuid)" .
qed

lemma scanning_cursor_congruent:
  assumes "reachable s" and "representable s" and "w < length (cpu_index s)"
    and "within_budget s w"
  shows "unat (cpu_index s ! w) mod length (cpu_index s) = w"
proof -
  note ok = reachable_cursor_ok [OF assms(1,2,3)]
  show ?thesis
  proof (cases "cpu_waiting s ! w = 0")
    case False
    with ok show ?thesis by (simp add: cursor_ok_waiting)
  next
    case True
    from assms(2) have "length (cpu_index s) < 2 ^ 63" by (simp add: representable_def)
    with assms(3) have "unat (of_nat w :: size_t) mod length (cpu_index s) = w"
      by (simp add: unat_of_nat_cpu)
    with ok True assms(4) show ?thesis by (auto simp: cursor_ok_active)
  qed
qed

text \<open>
  C5: in every state of a run, the cursor \<^verbatim>\<open>cpu_index[w]\<close> of a worker \<open>w\<close> that is
  scanning (its observed epoch is within the iteration budget) is congruent to \<open>w\<close>
  modulo the number of cpus, so the cursors that two distinct workers hold, in the same
  state or in two states of runs with the same number of cpus, are never equal. When
  \<^verbatim>\<open>get_next_task\<close> hands a task to a worker, the vertex of the task is the entry of the
  worker's block at its cursor, and that cursor is congruent to the worker; two calls
  by distinct workers therefore use different offsets, and over the blocks that the
  constructor built the two workers are handed different vertices.
\<close>

theorem cursor_congruent_to_worker:
  assumes "reachable sa" and "representable sa" and "reachable sb" and "representable sb"
    and "length (cpu_index sb) = length (cpu_index sa)"
  shows
    "(wa < length (cpu_index sa) \<and> within_budget sa wa \<longrightarrow>
        unat (cpu_index sa ! wa) mod length (cpu_index sa) = wa) \<and>
     (wa < length (cpu_index sa) \<and> within_budget sa wa \<and>
      wb < length (cpu_index sb) \<and> within_budget sb wb \<and> wa \<noteq> wb \<longrightarrow>
        cpu_index sa ! wa \<noteq> cpu_index sb ! wb) \<and>
     (get_next_task ca ta sa = Inr (NEWTASK, ta', sa') \<and>
      get_next_task cb tb sb = Inr (NEWTASK, tb', sb') \<and> ca \<noteq> cb \<longrightarrow>
        task_vertex ta' =
          color_blocks sa ! unat (cpu_color sa' ! unat ca mod vec_size (color_blocks sa))
            ! unat (cpu_index sa' ! unat ca) \<and>
        task_vertex tb' =
          color_blocks sb ! unat (cpu_color sb' ! unat cb mod vec_size (color_blocks sb))
            ! unat (cpu_index sb' ! unat cb) \<and>
        unat (cpu_index sa' ! unat ca) mod length (cpu_index sa) = unat ca \<and>
        unat (cpu_index sb' ! unat cb) mod length (cpu_index sa) = unat cb \<and>
        cpu_index sa' ! unat ca \<noteq> cpu_index sb' ! unat cb \<and>
        (color_blocks sa = build_blocks color_of n \<and> color_blocks sb = build_blocks color_of n \<longrightarrow>
           task_vertex ta' \<noteq> task_vertex tb'))"
proof (intro conjI impI)
  assume "wa < length (cpu_index sa) \<and> within_budget sa wa"
  with assms(1,2) show "unat (cpu_index sa ! wa) mod length (cpu_index sa) = wa"
    by (simp add: scanning_cursor_congruent)
next
  assume h: "wa < length (cpu_index sa) \<and> within_budget sa wa \<and>
      wb < length (cpu_index sb) \<and> within_budget sb wb \<and> wa \<noteq> wb"
  then have "unat (cpu_index sa ! wa) mod length (cpu_index sa) = wa"
    using assms(1,2) by (simp add: scanning_cursor_congruent)
  moreover from h have "unat (cpu_index sb ! wb) mod length (cpu_index sb) = wb"
    using assms(3,4) by (simp add: scanning_cursor_congruent)
  ultimately show "cpu_index sa ! wa \<noteq> cpu_index sb ! wb"
    using h assms(5) by auto
next
  assume h: "get_next_task ca ta sa = Inr (NEWTASK, ta', sa') \<and>
      get_next_task cb tb sb = Inr (NEWTASK, tb', sb') \<and> ca \<noteq> cb"
  then have stepa: "get_next_task ca ta sa = Inr (NEWTASK, ta', sa')"
    and stepb: "get_next_task cb tb sb = Inr (NEWTASK, tb', sb')" and ne: "ca \<noteq> cb"
    by simp_all
  note a = newtask_call [OF stepa assms(1,2)]
  note b = newtask_call [OF stepb assms(3,4)]
  from ne have une: "unat ca \<noteq> unat cb" by (simp add: word_unat_eq_iff)
  show "task_vertex ta' =
          color_blocks sa ! unat (cpu_color sa' ! unat ca mod vec_size (color_blocks sa))
            ! unat (cpu_index sa' ! unat ca)" by (rule a(5))
  show "task_vertex tb' =
          color_blocks sb ! unat (cpu_color sb' ! unat cb mod vec_size (color_blocks sb))
            ! unat (cpu_index sb' ! unat cb)" by (rule b(5))
  show ca: "unat (cpu_index sa' ! unat ca) mod length (cpu_index sa) = unat ca" by (rule a(2))
  show cb: "unat (cpu_index sb' ! unat cb) mod length (cpu_index sa) = unat cb"
    using b(2) assms(5) by simp
  from ca cb une have ine: "unat (cpu_index sa' ! unat ca) \<noteq> unat (cpu_index sb' ! unat cb)"
    by auto
  then show "cpu_index sa' ! unat ca \<noteq> cpu_index sb' ! unat cb" by auto
  show "task_vertex ta' \<noteq> task_vertex tb'"
    if "color_blocks sa = build_blocks color_of n \<and> color_blocks sb = build_blocks color_of n"
  proof -
    from that have ba: "color_blocks sa = build_blocks color_of n"
      and bb: "color_blocks sb = build_blocks color_of n" by simp_all
    from build_blocks_entries_differ [OF a(3) [unfolded ba] b(3) [unfolded bb]
        a(4) [unfolded ba] b(4) [unfolded bb] ine]
    show ?thesis using a(5) b(5) by (simp add: ba bb)
  qed
qed

theorem cursor_congruent_to_worker_witness:
  "reachable (six_after [0, 1]) \<and> representable (six_after [0, 1]) \<and>
   reachable (six_after [0, 1, 0]) \<and> representable (six_after [0, 1, 0]) \<and>
   length (cpu_index (six_after [0, 1, 0])) = length (cpu_index (six_after [0, 1])) \<and>
   0 < length (cpu_index (six_after [0, 1])) \<and> within_budget (six_after [0, 1]) 0 \<and>
   1 < length (cpu_index (six_after [0, 1, 0])) \<and> within_budget (six_after [0, 1, 0]) 1 \<and>
   get_next_task 0 no_task (six_after [0, 1])
     = Inr (NEWTASK, \<lparr> task_vertex = 4, task_function = 7 \<rparr>, six_after [0, 1, 0]) \<and>
   get_next_task 1 no_task (six_after [0, 1, 0])
     = Inr (NEWTASK, \<lparr> task_vertex = 5, task_function = 7 \<rparr>, six_after [0, 1, 0, 1]) \<and>
   color_blocks (six_after [0, 1]) = build_blocks (vertex_color six_graph) 6 \<and>
   color_blocks (six_after [0, 1, 0]) = build_blocks (vertex_color six_graph) 6 \<and>
   cpu_index (six_after [0, 1]) ! 0 = 2 \<and>
   cpu_index (six_after [0, 1, 0]) ! 1 = 3 \<and>
   cpu_index (six_after [0, 1, 0]) ! 0 = 4 \<and>
   cpu_index (six_after [0, 1, 0, 1]) ! 1 = 5 \<and>
   unat (cpu_index (six_after [0, 1]) ! 0) mod length (cpu_index (six_after [0, 1])) = 0 \<and>
   cpu_index (six_after [0, 1]) ! 0 \<noteq> cpu_index (six_after [0, 1, 0]) ! 1 \<and>
   unat (cpu_index (six_after [0, 1, 0]) ! unat (0 :: size_t)) mod length (cpu_index (six_after [0, 1]))
     = unat (0 :: size_t) \<and>
   unat (cpu_index (six_after [0, 1, 0, 1]) ! unat (1 :: size_t)) mod length (cpu_index (six_after [0, 1]))
     = unat (1 :: size_t) \<and>
   cpu_index (six_after [0, 1, 0]) ! unat (0 :: size_t)
     \<noteq> cpu_index (six_after [0, 1, 0, 1]) ! unat (1 :: size_t) \<and>
   task_vertex \<lparr> task_vertex = 4, task_function = 7 \<rparr>
     \<noteq> task_vertex \<lparr> task_vertex = 5, task_function = (7 :: size_t) \<rparr>"
proof -
  let ?sa = "six_after [0, 1]"
  let ?sb = "six_after [0, 1, 0]"
  let ?sb' = "six_after [0, 1, 0, 1]"
  let ?ta = "\<lparr> task_vertex = 4, task_function = (7 :: size_t) \<rparr>"
  let ?tb = "\<lparr> task_vertex = 5, task_function = (7 :: size_t) \<rparr>"
  have sa: "?sa = six_started\<lparr> cpu_index := [2, 3] \<rparr>"
    by code_simp
  have sb: "?sb = six_started\<lparr> cpu_index := [4, 3] \<rparr>"
    by code_simp
  have sb': "?sb' = six_started\<lparr> cpu_index := [4, 5] \<rparr>"
    by code_simp
  have runa: "reachable ?sa" and runb: "reachable ?sb"
    by (rule six_after_reachable)+
  have repa: "representable ?sa" and repb: "representable ?sb"
    by (simp_all add: sa sb representable_def six_started_def)
  have len: "length (cpu_index ?sb) = length (cpu_index ?sa)"
    by (simp add: sa sb six_started_def)
  have wa: "0 < length (cpu_index ?sa)" and wb: "1 < length (cpu_index ?sb)"
    by (simp_all add: sa sb six_started_def)
  have ba: "within_budget ?sa 0" and bb: "within_budget ?sb 1"
    by code_simp+
  have calla: "get_next_task 0 no_task ?sa = Inr (NEWTASK, ?ta, ?sb)"
    by code_simp
  have callb: "get_next_task 1 no_task ?sb = Inr (NEWTASK, ?tb, ?sb')"
    by code_simp
  have blocksa: "color_blocks ?sa = build_blocks (vertex_color six_graph) 6"
    and blocksb: "color_blocks ?sb = build_blocks (vertex_color six_graph) 6"
    by code_simp+
  have cursors: "cpu_index ?sa ! 0 = 2" "cpu_index ?sb ! 1 = 3" "cpu_index ?sb ! 0 = 4"
    "cpu_index ?sb' ! 1 = 5"
    by (simp_all add: sa sb sb' six_started_def)
  have workers: "(0 :: nat) \<noteq> 1" "(0 :: size_t) \<noteq> 1"
    by simp_all
  note inst = cursor_congruent_to_worker [OF runa repa runb repb len,
      of 0 1 0 no_task ?ta ?sb 1 no_task ?tb ?sb' "vertex_color six_graph" 6]
  from inst wa ba have c1: "unat (cpu_index ?sa ! 0) mod length (cpu_index ?sa) = 0"
    by blast
  from inst wa ba wb bb workers(1) have c2: "cpu_index ?sa ! 0 \<noteq> cpu_index ?sb ! 1"
    by blast
  from inst calla callb workers(2) blocksa blocksb
  have c3: "unat (cpu_index ?sb ! unat (0 :: size_t)) mod length (cpu_index ?sa) = unat (0 :: size_t)"
    and c4: "unat (cpu_index ?sb' ! unat (1 :: size_t)) mod length (cpu_index ?sa) = unat (1 :: size_t)"
    and c5: "cpu_index ?sb ! unat (0 :: size_t) \<noteq> cpu_index ?sb' ! unat (1 :: size_t)"
    and c6: "task_vertex ?ta \<noteq> task_vertex ?tb"
    by blast+
  from runa repa runb repb len wa ba wb bb calla callb blocksa blocksb cursors c1 c2 c3 c4 c5 c6
  show ?thesis by (intro conjI)
qed


subsection \<open>Past the budget\<close>

lemma three_spent_start: "start (three_spent 0) = Inr (three_spent 0)"
  by code_simp

lemma three_spent_call:
  "get_next_task 0 t (three_spent idx) = Inr (COMPLETE, t, three_spent (idx + 3))"
  by (simp add: get_next_task_def three_spent_def cpu_in_range_def renew_cursor_def vec_size_def)

lemma three_spent_later: "later (three_spent 0) (three_spent (of_nat (3 * k)))"
proof (induction k)
  case 0
  show ?case by (simp add: later.now)
next
  case (Suc k)
  have eq: "of_nat (3 * Suc k) = (of_nat (3 * k) + 3 :: size_t)" by simp
  from later.stepped [OF Suc three_spent_call] show ?case unfolding eq .
qed

text \<open>
  The budget matters: a worker that has used up the iterations is sent to \<open>COMPLETE\<close>
  by every call, and every such call still adds the number of cpus to its cursor
  (line 140). With three workers the cursor of worker 0 has wrapped around to 2 after
  \<open>6148914691236517206\<close> calls. Such a worker scans no block again.
\<close>

lemma cursor_wraps_past_budget:
  "reachable (three_spent 2) \<and> \<not> within_budget (three_spent 2) 0 \<and>
   unat (cpu_index (three_spent 2) ! 0) mod length (cpu_index (three_spent 2)) \<noteq> 0"
proof -
  have eq: "of_nat (3 * 6148914691236517206) = (2 :: size_t)"
    by (simp add: word_unat_eq_iff)
  from three_spent_later [of 6148914691236517206] have "later (three_spent 0) (three_spent 2)"
    unfolding eq .
  with three_spent_start have "reachable (three_spent 2)" by (rule reachable.run)
  moreover have "\<not> within_budget (three_spent 2) 0"
    by (simp add: within_budget_def three_spent_def)
  moreover have "unat (cpu_index (three_spent 2) ! 0) mod length (cpu_index (three_spent 2)) \<noteq> 0"
    by (simp add: three_spent_def)
  ultimately show ?thesis by simp
qed

section \<open>A graph without vertices\<close>

text \<open>
  C3 (the code departs from it): on a graph without vertices the scheduler should
  report \<open>COMPLETE\<close> at once. The constructor then leaves \<^verbatim>\<open>color_blocks\<close> empty, and
  the first call of \<^verbatim>\<open>get_next_task\<close> after \<^verbatim>\<open>start\<close> computes
  \<^verbatim>\<open>cpu_color[cpuid] % color_blocks.size()\<close> with a size of zero: a division by zero,
  here with two workers, update function 7 and one iteration.
\<close>

theorem empty_graph_divides_by_zero:
  "engine_run \<lparr> num_vertices = 0, vertex_color = (\<lambda>i. 0) \<rparr> 2 7 1 [0] no_task = Inl DivisionByZero"
  by code_simp

lemma no_blocks_divides_by_zero:
  assumes "color_blocks s = []" and "\<not> completed s" and "cpu_in_range s cpuid"
    and "\<not> still_waiting s cpuid"
  shows "get_next_task cpuid t s = Inl DivisionByZero"
  using assms by (simp add: get_next_task_def still_waiting_def vec_size_def)

section \<open>The first epoch after start\<close>

text \<open>
  The first call of a worker after \<^verbatim>\<open>start\<close> takes the branch of line 140: the cursor
  that \<^verbatim>\<open>start\<close> set to \<^verbatim>\<open>cpuid\<close> is moved on by the number of cpus before it is used.
\<close>

lemma first_call_after_start:
  assumes "start s = Inr s0" and "representable s0"
    and "get_next_task cpuid t s0 = Inr (NEWTASK, t', s')"
  shows "unat (cpu_index s' ! unat cpuid) = unat cpuid + length (cpu_index s0)"
  using assms(3)
proof (cases rule: get_next_task_cases)
  case Task
  from Task(2) have i: "unat cpuid < length (cpu_index s0)" by (simp add: cpu_in_range_def)
  from assms(2) have n: "length (cpu_index s0) < 2 ^ 63" by (simp add: representable_def)
  note st = start_state [OF assms(1) i]
  note mv = renew_cursor_moved [OF Task(2) st(2)]
  have "unat (of_nat (unat cpuid) :: size_t) < 2 ^ 63" using i n by simp
  from unat_add_vec_size [OF this n] mv(1) st(1) Task(8) show ?thesis by simp
qed simp_all

text \<open>
  In the later epochs a worker enters the block through lines 135 to 137, which set
  the cursor to \<^verbatim>\<open>cpuid\<close> and do not move it on: the first task of the worker is the one
  at offset \<^verbatim>\<open>cpuid\<close>.
\<close>

lemma woken_call_starts_at_cpuid:
  assumes "get_next_task cpuid t s = Inr (NEWTASK, t', s')" and "cpu_waiting s ! unat cpuid \<noteq> 0"
  shows "cpu_index s' ! unat cpuid = cpuid"
  using assms(1)
proof (cases rule: get_next_task_cases)
  case Task
  from renew_cursor_woken(1) [OF Task(2) assms(2)] Task(8) show ?thesis by simp
qed simp_all


text \<open>
  C1 (the code departs from it): in every epoch, the first after \<^verbatim>\<open>start\<close> included,
  the workers should be handed every vertex of the epoch's color block exactly once.
  In the scenario of the specification (vertices 0 and 1 of the first color, 2 and 3
  of the second, two workers, one iteration) the first epoch hands out nothing: both
  workers overrun the block \<open>[0, 1]\<close> with their first call and wait. The second epoch
  hands out 2 and 3, and then the run is complete. Vertices 0 and 1 are never handed
  out.
\<close>

theorem first_epoch_skips_class:
  "engine_run scenario_graph 2 7 1 [0, 1, 0, 1, 0, 1, 0, 1] no_task =
     Inr [(WAITING, no_task), (WAITING, no_task),
          (NEWTASK, \<lparr> task_vertex = 2, task_function = 7 \<rparr>),
          (NEWTASK, \<lparr> task_vertex = 3, task_function = 7 \<rparr>),
          (WAITING, no_task), (WAITING, no_task),
          (COMPLETE, no_task), (COMPLETE, no_task)]"
  by code_simp

end
